theory Spec2Isabelle
  imports Complex_Main "HOL-Library.Product_Lexorder"
begin

section \<open>Python strings\<close>

text \<open>
  The program is \<^verbatim>\<open>file_diff_gui.py\<close>: a Tk window that reads two files, normalizes
  their lines (\<^verbatim>\<open>normalize_lines\<close>), compares them with \<^verbatim>\<open>difflib.ndiff\<close> and shows and
  saves the result. A Python \<^verbatim>\<open>str\<close> is a sequence of Unicode code points, so a string
  is modelled as a list of code points (natural numbers); \<open>str\<close> writes an ASCII
  literal as such a list. A line sequence is a list of strings.
\<close>

type_synonym pystr = "nat list"

definition str :: "string \<Rightarrow> pystr" where
  "str s = map of_char s"

text \<open>
  \<^verbatim>\<open>str.split()\<close>, \<^verbatim>\<open>str.strip()\<close>, \<^verbatim>\<open>str.rstrip()\<close> and \<^verbatim>\<open>str.isspace()\<close> treat as
  whitespace exactly the code points for which \<^verbatim>\<open>Py_UNICODE_ISSPACE\<close> holds:
  U+0009..U+000D, U+001C..U+0020, U+0085, U+00A0, U+1680, U+2000..U+200A, U+2028,
  U+2029, U+202F, U+205F and U+3000.
\<close>

definition isspace :: "nat \<Rightarrow> bool" where
  "isspace c \<longleftrightarrow>
     (9 \<le> c \<and> c \<le> 13) \<or> (28 \<le> c \<and> c \<le> 32) \<or> c = 133 \<or> c = 160 \<or> c = 5760 \<or>
     (8192 \<le> c \<and> c \<le> 8202) \<or> c = 8232 \<or> c = 8233 \<or> c = 8239 \<or> c = 8287 \<or> c = 12288"

text \<open>
  \<^verbatim>\<open>s.split()\<close>: skip a run of whitespace, take the run of other characters that
  follows as the next word, and go on behind it; no empty word is produced.
\<close>

function split_ws :: "pystr \<Rightarrow> pystr list" where
  "split_ws s =
     (let r = dropWhile isspace s in
      if r = [] then []
      else takeWhile (\<lambda>c. \<not> isspace c) r # split_ws (dropWhile (\<lambda>c. \<not> isspace c) r))"
  by pat_completeness auto
termination
proof (relation "measure length")
  fix s r
  assume r: "r = dropWhile isspace s" and ne: "r \<noteq> []"
  have "length (dropWhile (\<lambda>c. \<not> isspace c) r) < length r"
  proof (cases r)
    case Nil with ne show ?thesis by simp
  next
    case (Cons x xs)
    with r have "\<not> isspace x" by (metis hd_dropWhile list.sel(1) ne)
    with Cons show ?thesis by (simp add: le_imp_less_Suc length_dropWhile_le)
  qed
  moreover have "length r \<le> length s" using r by (simp add: length_dropWhile_le)
  ultimately show "(dropWhile (\<lambda>c. \<not> isspace c) r, s) \<in> measure length" by simp
qed simp

declare split_ws.simps [simp del]

text \<open>
\<^verbatim>\<open>sep.join(xs)\<close>, \<^verbatim>\<open>s.rstrip()\<close>, \<^verbatim>\<open>s.strip()\<close> and \<^verbatim>\<open>s.startswith(p)\<close>.
\<close>

fun join :: "pystr \<Rightarrow> pystr list \<Rightarrow> pystr" where
  "join sep [] = []"
| "join sep [x] = x"
| "join sep (x # y # ys) = x @ sep @ join sep (y # ys)"

definition rstrip :: "pystr \<Rightarrow> pystr" where
  "rstrip s = rev (dropWhile isspace (rev s))"

definition strip :: "pystr \<Rightarrow> pystr" where
  "strip s = rstrip (dropWhile isspace s)"

definition startswith :: "pystr \<Rightarrow> pystr \<Rightarrow> bool" where
  "startswith s p \<longleftrightarrow> take (length p) s = p"

text \<open>
  \<^verbatim>\<open>s.casefold()\<close> replaces every code point by its full case folding, one code point
  at a time and without looking at its neighbours. The folding of a code point is a
  table of the Unicode character database, which is not part of the repository: the
  table is the parameter \<open>cf\<close> (a code point to the one to three code points it folds
  to).
\<close>

definition casefold :: "(nat \<Rightarrow> pystr) \<Rightarrow> pystr \<Rightarrow> pystr" where
  "casefold cf s = concat (map cf s)"

text \<open>
  An excerpt of the Unicode full case folding, the identity elsewhere, for concrete
  examples: the ASCII capitals, U+00DF (sharp s, to \<open>ss\<close>), U+0130 (capital I with dot,
  to \<open>i\<close> and U+0307), U+03A3 and U+03C2 (capital and final sigma, to U+03C3).
\<close>

definition fold_excerpt :: "nat \<Rightarrow> pystr" where
  "fold_excerpt c =
     (if 65 \<le> c \<and> c \<le> 90 then [c + 32]
      else if c = 223 then [115, 115]
      else if c = 304 then [105, 775]
      else if c = 931 \<or> c = 962 then [963]
      else [c])"

text \<open>
  The decimal digits of a natural number and the names of the truth values, as the
  f-strings of the program print a count and a flag.
\<close>

function str_nat :: "nat \<Rightarrow> pystr" where
  "str_nat n = (if n < 10 then [48 + n] else str_nat (n div 10) @ [48 + n mod 10])"
  by pat_completeness auto
termination
  by (relation "measure id") auto

declare str_nat.simps [simp del]

definition str_bool :: "bool \<Rightarrow> pystr" where
  "str_bool v = (if v then str ''True'' else str ''False'')"

section \<open>The normalizer\<close>

text \<open>
  \<^verbatim>\<open>normalize_lines(lines, ignore_case, ignore_ws)\<close>: the body of its loop computes the
  normalized line \<open>s\<close>, and the loop appends it to \<open>norm\<close>.
\<close>

definition normalize_line :: "(nat \<Rightarrow> pystr) \<Rightarrow> bool \<Rightarrow> bool \<Rightarrow> pystr \<Rightarrow> pystr" where
  "normalize_line cf ignore_case ignore_ws line =
     (let s = line;
          s = (if ignore_ws then join (str '' '') (split_ws s) else s);
          s = (if ignore_case then casefold cf s else s)
      in s)"

definition normalize_lines :: "(nat \<Rightarrow> pystr) \<Rightarrow> pystr list \<Rightarrow> bool \<Rightarrow> bool \<Rightarrow> pystr list" where
  "normalize_lines cf lines ignore_case ignore_ws =
     foldl (\<lambda>norm line. norm @ [normalize_line cf ignore_case ignore_ws line]) [] lines"

subsection \<open>The normalizer as the specification words it\<close>

text \<open>
  The specification's normalizer, from its words: with \<open>ignoreWhitespace\<close>, every
  maximal run of whitespace characters is replaced by a single space (\<open>squeeze_ws\<close>)
  and leading and trailing whitespace is stripped; with \<open>ignoreCase\<close>, the result is
  then case folded.
\<close>

function squeeze_ws :: "pystr \<Rightarrow> pystr" where
  "squeeze_ws [] = []"
| "squeeze_ws (c # s) =
     (if isspace c then 32 # squeeze_ws (dropWhile isspace s) else c # squeeze_ws s)"
  by pat_completeness auto
termination
  by (relation "measure length") (simp_all add: le_imp_less_Suc length_dropWhile_le)

definition spec_normalize_line :: "(nat \<Rightarrow> pystr) \<Rightarrow> bool \<Rightarrow> bool \<Rightarrow> pystr \<Rightarrow> pystr" where
  "spec_normalize_line cf ignore_case ignore_ws line =
     (let s = (if ignore_ws then strip (squeeze_ws line) else line)
      in if ignore_case then casefold cf s else s)"

text \<open>
  What idempotence needs of the folding table: folding a folded code point changes
  nothing, the space folds to itself, and the folding of a character that is not
  whitespace is not empty and holds no whitespace. The full case folding of Unicode
  has these properties.
\<close>

definition fold_table_ok :: "(nat \<Rightarrow> pystr) \<Rightarrow> bool" where
  "fold_table_ok cf \<longleftrightarrow>
     (\<forall>c. concat (map cf (cf c)) = cf c) \<and> cf 32 = [32] \<and>
     (\<forall>c. \<not> isspace c \<longrightarrow> cf c \<noteq> [] \<and> (\<forall>d \<in> set (cf c). \<not> isspace d))"

text \<open>
The words \<^verbatim>\<open>split\<close> returns: none is empty, none holds whitespace.
\<close>

definition words_ok :: "pystr list \<Rightarrow> bool" where
  "words_ok ws \<longleftrightarrow> (\<forall>w \<in> set ws. w \<noteq> [] \<and> (\<forall>c \<in> set w. \<not> isspace c))"

section \<open>The sequence matcher of difflib\<close>

text \<open>
  \<^verbatim>\<open>difflib.ndiff\<close> belongs to Python's standard library, not to the repository. The
  model follows \<^verbatim>\<open>Lib/difflib.py\<close> of CPython 3.11 function by function and keeps its
  names: the class \<^verbatim>\<open>SequenceMatcher\<close> in this section, the class \<^verbatim>\<open>Differ\<close> in the
  next. Indices are natural numbers; where Python would form a negative number or look
  up the key \<open>-1\<close>, the model says so.

  A \<^verbatim>\<open>SequenceMatcher\<close> holds the two sequences, the dictionary \<^verbatim>\<open>b2j\<close> from an element
  of \<open>b\<close> to the increasing list of its positions in \<open>b\<close>, and the sets \<^verbatim>\<open>bjunk\<close> and
  \<^verbatim>\<open>bpopular\<close>. Its caches (\<^verbatim>\<open>matching_blocks\<close>, \<^verbatim>\<open>opcodes\<close>, \<^verbatim>\<open>fullbcount\<close>) only save
  recomputation and are left out. Both matchers of \<^verbatim>\<open>Differ\<close> are built with the default
  \<^verbatim>\<open>autojunk=True\<close>.
\<close>

record 'a seqmatcher =
  sm_a :: "'a list"
  sm_b :: "'a list"
  sm_b2j :: "'a \<rightharpoonup> nat list"
  sm_bjunk :: "'a set"
  sm_bpopular :: "'a set"

text \<open>
  \<^verbatim>\<open>__chain_b\<close>: enter every position of \<open>b\<close> under its element
  (\<^verbatim>\<open>b2j.setdefault(elt, []).append(i)\<close>); delete the keys the junk predicate holds for
  (none when \<^verbatim>\<open>isjunk\<close> is \<^verbatim>\<open>None\<close>); and, when \<open>b\<close> has at least 200 elements, delete
  the keys that occur more than \<open>n // 100 + 1\<close> times (the popular elements). The keys of
  \<^verbatim>\<open>b2j\<close> are the elements of \<open>b\<close>, so the two loops over the keys range over \<open>set b\<close>.
\<close>

definition b2j_append :: "('a \<rightharpoonup> nat list) \<Rightarrow> nat \<times> 'a \<Rightarrow> ('a \<rightharpoonup> nat list)" where
  "b2j_append b2j p =
     (case p of (i, elt) \<Rightarrow>
        b2j(elt \<mapsto> (case b2j elt of None \<Rightarrow> [] | Some indices \<Rightarrow> indices) @ [i]))"

definition chain_b ::
  "('a \<Rightarrow> bool) option \<Rightarrow> 'a list \<Rightarrow> ('a \<rightharpoonup> nat list) \<times> 'a set \<times> 'a set" where
  "chain_b isjunk b =
     (let b2j = foldl b2j_append Map.empty (enumerate 0 b);
          junk = (case isjunk of None \<Rightarrow> {} | Some f \<Rightarrow> Set.filter f (set b));
          b2j = (\<lambda>elt. if elt \<in> junk then None else b2j elt);
          n = length b;
          ntest = n div 100 + 1;
          popular = (if n \<ge> 200
                     then Set.filter (\<lambda>elt. case b2j elt of None \<Rightarrow> False
                                              | Some idxs \<Rightarrow> length idxs > ntest) (set b)
                     else {});
          b2j = (\<lambda>elt. if elt \<in> popular then None else b2j elt)
      in (b2j, junk, popular))"

definition SequenceMatcher :: "('a \<Rightarrow> bool) option \<Rightarrow> 'a list \<Rightarrow> 'a list \<Rightarrow> 'a seqmatcher" where
  "SequenceMatcher isjunk a b =
     (case chain_b isjunk b of (b2j, junk, popular) \<Rightarrow>
        \<lparr>sm_a = a, sm_b = b, sm_b2j = b2j, sm_bjunk = junk, sm_bpopular = popular\<rparr>)"

text \<open>
  \<^verbatim>\<open>find_longest_match(alo, ahi, blo, bhi)\<close>. The loop over \<open>i\<close> in \<^verbatim>\<open>range(alo, ahi)\<close>
  keeps \<^verbatim>\<open>j2len\<close> (for each \<open>j\<close> the length of the longest junk-free match ending with
  \<open>a[i-1]\<close> and \<open>b[j]\<close>) and the best match so far; its inner loop runs over the
  positions \<^verbatim>\<open>b2j.get(a[i], [])\<close>, skips those below \<open>blo\<close> (\<^verbatim>\<open>continue\<close>) and stops at
  the first one from \<open>bhi\<close> on (\<^verbatim>\<open>break\<close>).
  \<open>prev_len j2len j\<close> is \<^verbatim>\<open>j2len.get(j-1, 0)\<close>: for \<open>j = 0\<close> the key \<open>-1\<close> is never in the
  dictionary. The new start \<^verbatim>\<open>i-k+1\<close> is written \<open>i + 1 - k\<close>, since \<open>k \<le> i + 1\<close>
  throughout (\<open>find_longest_match_bounds\<close> below).
\<close>

definition prev_len :: "(nat \<rightharpoonup> nat) \<Rightarrow> nat \<Rightarrow> nat" where
  "prev_len j2len j = (if j = 0 then 0 else case j2len (j - 1) of None \<Rightarrow> 0 | Some v \<Rightarrow> v)"

fun flm_inner ::
  "(nat \<rightharpoonup> nat) \<Rightarrow> nat \<Rightarrow> nat \<Rightarrow> nat \<Rightarrow> nat list \<Rightarrow>
   (nat \<rightharpoonup> nat) \<times> nat \<times> nat \<times> nat \<Rightarrow> (nat \<rightharpoonup> nat) \<times> nat \<times> nat \<times> nat" where
  "flm_inner j2len i blo bhi [] st = st"
| "flm_inner j2len i blo bhi (j # js) (newj2len, besti, bestj, bestsize) =
     (if j < blo then flm_inner j2len i blo bhi js (newj2len, besti, bestj, bestsize)
      else if j \<ge> bhi then (newj2len, besti, bestj, bestsize)
      else
        (let k = prev_len j2len j + 1
         in if k > bestsize
            then flm_inner j2len i blo bhi js (newj2len(j \<mapsto> k), i + 1 - k, j + 1 - k, k)
            else flm_inner j2len i blo bhi js (newj2len(j \<mapsto> k), besti, bestj, bestsize)))"

definition flm_outer ::
  "'a list \<Rightarrow> ('a \<rightharpoonup> nat list) \<Rightarrow> nat \<Rightarrow> nat \<Rightarrow> nat \<Rightarrow>
   (nat \<rightharpoonup> nat) \<times> nat \<times> nat \<times> nat \<Rightarrow> (nat \<rightharpoonup> nat) \<times> nat \<times> nat \<times> nat" where
  "flm_outer a b2j blo bhi i st =
     (case st of (j2len, besti, bestj, bestsize) \<Rightarrow>
        flm_inner j2len i blo bhi (case b2j (a ! i) of None \<Rightarrow> [] | Some js \<Rightarrow> js)
          (Map.empty, besti, bestj, bestsize))"

text \<open>
  The four \<^verbatim>\<open>while\<close> loops that extend the best match: downwards and upwards over
  matching elements that are not junk, then downwards and upwards over matching junk.
  \<open>ok\<close> is the test on \<open>b[bestj-1]\<close> or \<open>b[bestj+bestsize]\<close>.
\<close>

function extend_down ::
  "'a list \<Rightarrow> 'a list \<Rightarrow> ('a \<Rightarrow> bool) \<Rightarrow> nat \<Rightarrow> nat \<Rightarrow> nat \<times> nat \<times> nat \<Rightarrow> nat \<times> nat \<times> nat" where
  "extend_down a b ok alo blo (besti, bestj, bestsize) =
     (if besti > alo \<and> bestj > blo \<and> ok (b ! (bestj - 1)) \<and> a ! (besti - 1) = b ! (bestj - 1)
      then extend_down a b ok alo blo (besti - 1, bestj - 1, bestsize + 1)
      else (besti, bestj, bestsize))"
  by pat_completeness auto
termination
  by (relation "measure (\<lambda>(a, b, ok, alo, blo, besti, bestj, bestsize). besti)") auto

function extend_up ::
  "'a list \<Rightarrow> 'a list \<Rightarrow> ('a \<Rightarrow> bool) \<Rightarrow> nat \<Rightarrow> nat \<Rightarrow> nat \<times> nat \<times> nat \<Rightarrow> nat \<times> nat \<times> nat" where
  "extend_up a b ok ahi bhi (besti, bestj, bestsize) =
     (if besti + bestsize < ahi \<and> bestj + bestsize < bhi \<and> ok (b ! (bestj + bestsize)) \<and>
         a ! (besti + bestsize) = b ! (bestj + bestsize)
      then extend_up a b ok ahi bhi (besti, bestj, bestsize + 1)
      else (besti, bestj, bestsize))"
  by pat_completeness auto
termination
  by (relation "measure (\<lambda>(a, b, ok, ahi, bhi, besti, bestj, bestsize). ahi - (besti + bestsize))") auto

declare extend_down.simps [simp del] extend_up.simps [simp del]

definition find_longest_match :: "'a seqmatcher \<Rightarrow> nat \<Rightarrow> nat \<Rightarrow> nat \<Rightarrow> nat \<Rightarrow> nat \<times> nat \<times> nat" where
  "find_longest_match sm alo ahi blo bhi =
     (let a = sm_a sm; b = sm_b sm; b2j = sm_b2j sm;
          isbjunk = (\<lambda>x. x \<in> sm_bjunk sm)
      in case fold (flm_outer a b2j blo bhi) [alo..<ahi] (Map.empty, alo, blo, 0) of
           (j2len, best) \<Rightarrow>
             extend_up a b isbjunk ahi bhi
               (extend_down a b isbjunk alo blo
                 (extend_up a b (\<lambda>x. \<not> isbjunk x) ahi bhi
                   (extend_down a b (\<lambda>x. \<not> isbjunk x) alo blo best))))"

text \<open>
  The match returned lies within \<open>a[alo:ahi]\<close>, and is empty when that range is. The
  loop of \<^verbatim>\<open>get_matching_blocks\<close> terminates for this reason.
\<close>

definition flm_inv :: "nat \<Rightarrow> nat \<Rightarrow> nat \<Rightarrow> (nat \<rightharpoonup> nat) \<times> nat \<times> nat \<times> nat \<Rightarrow> bool" where
  "flm_inv alo blo n st \<longleftrightarrow>
     (case st of (j2len, besti, bestj, bestsize) \<Rightarrow>
        alo \<le> besti \<and> besti + bestsize \<le> n \<and>
        (\<forall>j v. j2len j = Some v \<longrightarrow> v \<le> n - alo))"

lemma flm_inner_inv:
  assumes "\<forall>j v. j2len j = Some v \<longrightarrow> v \<le> i - alo" "alo \<le> i"
    and "flm_inv alo blo (Suc i) st"
  shows "flm_inv alo blo (Suc i) (flm_inner j2len i blo bhi js st)"
  using assms(3)
proof (induction js arbitrary: st)
  case Nil then show ?case by simp
next
  case (Cons j js)
  obtain n2 bi bj bs where st: "st = (n2, bi, bj, bs)" by (cases st) auto
  define k where "k = prev_len j2len j + 1"
  have "prev_len j2len j \<le> i - alo"
    using assms(1) by (auto simp: prev_len_def split: option.splits)
  then have k: "k \<le> Suc i - alo" "1 \<le> k"
    using assms(2) by (auto simp: k_def)
  have i1: "flm_inv alo blo (Suc i) (n2(j \<mapsto> k), i + 1 - k, j + 1 - k, k)"
    using k assms(2) Cons.prems by (auto simp: flm_inv_def st)
  have i2: "flm_inv alo blo (Suc i) (n2(j \<mapsto> k), bi, bj, bs)"
    using k Cons.prems by (auto simp: flm_inv_def st)
  show ?case
    using Cons.IH[OF i1] Cons.IH[OF i2] Cons.IH[OF Cons.prems] Cons.prems
    by (simp add: st k_def[symmetric] Let_def del: One_nat_def)
qed

lemma flm_fold_inv:
  "flm_inv alo blo (alo + n)
     (fold (flm_outer a b2j blo bhi) [alo..<alo + n] (Map.empty, alo, blo, 0))"
proof (induction n)
  case 0 show ?case by (simp add: flm_inv_def)
next
  case (Suc n)
  define st where "st = fold (flm_outer a b2j blo bhi) [alo..<alo + n] (Map.empty, alo, blo, 0)"
  obtain j2len bi bj bs where st: "st = (j2len, bi, bj, bs)" by (cases st) auto
  from Suc have inv: "flm_inv alo blo (alo + n) (j2len, bi, bj, bs)"
    by (simp add: st_def[symmetric] st)
  have a: "\<forall>j v. j2len j = Some v \<longrightarrow> v \<le> (alo + n) - alo"
    using inv by (simp add: flm_inv_def)
  have b: "flm_inv alo blo (Suc (alo + n)) (Map.empty, bi, bj, bs)"
    using inv by (simp add: flm_inv_def)
  have "flm_inv alo blo (Suc (alo + n)) (flm_outer a b2j blo bhi (alo + n) st)"
    unfolding flm_outer_def st prod.case
    by (rule flm_inner_inv[OF a _ b]) simp
  then show ?case by (simp add: st_def)
qed

lemma extend_down_bounds:
  "extend_down a b ok alo blo (besti, bestj, bestsize) = (i, j, k) \<Longrightarrow> alo \<le> besti \<Longrightarrow>
     alo \<le> i \<and> i + k = besti + bestsize"
proof (induction a b ok alo blo "(besti, bestj, bestsize)" arbitrary: besti bestj bestsize
       rule: extend_down.induct)
  case (1 a b ok alo blo besti bestj bestsize)
  show ?case
  proof (cases "besti > alo \<and> bestj > blo \<and> ok (b ! (bestj - 1)) \<and> a ! (besti - 1) = b ! (bestj - 1)")
    case True
    with "1.prems"(1) have "extend_down a b ok alo blo (besti - 1, bestj - 1, bestsize + 1) = (i, j, k)"
      by (subst (asm) extend_down.simps) simp
    from "1.hyps"[OF True this] True "1.prems"(2) show ?thesis by auto
  next
    case False
    with "1.prems" show ?thesis by (subst (asm) extend_down.simps) auto
  qed
qed

lemma extend_up_bounds:
  "extend_up a b ok ahi bhi (besti, bestj, bestsize) = (i, j, k) \<Longrightarrow> besti + bestsize \<le> ahi \<Longrightarrow>
     i = besti \<and> i + k \<le> ahi"
proof (induction a b ok ahi bhi "(besti, bestj, bestsize)" arbitrary: besti bestj bestsize
       rule: extend_up.induct)
  case (1 a b ok ahi bhi besti bestj bestsize)
  show ?case
  proof (cases "besti + bestsize < ahi \<and> bestj + bestsize < bhi \<and> ok (b ! (bestj + bestsize)) \<and>
         a ! (besti + bestsize) = b ! (bestj + bestsize)")
    case True
    with "1.prems"(1) have "extend_up a b ok ahi bhi (besti, bestj, bestsize + 1) = (i, j, k)"
      by (subst (asm) extend_up.simps) simp
    from "1.hyps"[OF True this] True "1.prems"(2) show ?thesis by auto
  next
    case False
    with "1.prems" show ?thesis by (subst (asm) extend_up.simps) auto
  qed
qed

lemma find_longest_match_bounds:
  assumes "find_longest_match sm alo ahi blo bhi = (i, j, k)" "alo \<le> ahi"
  shows "alo \<le> i \<and> i + k \<le> ahi"
proof -
  define st where "st = fold (flm_outer (sm_a sm) (sm_b2j sm) blo bhi) [alo..<ahi] (Map.empty, alo, blo, 0)"
  obtain j2len bi bj bs where st: "st = (j2len, bi, bj, bs)" by (cases st) auto
  have "flm_inv alo blo ahi st"
    using flm_fold_inv[of alo blo "ahi - alo" "sm_a sm" "sm_b2j sm" bhi] assms(2)
    by (simp add: st_def)
  then have b0: "alo \<le> bi" "bi + bs \<le> ahi" by (simp_all add: st flm_inv_def)
  define ib where "ib = (\<lambda>x. x \<in> sm_bjunk sm)"
  obtain i1 j1 k1 where e1: "extend_down (sm_a sm) (sm_b sm) (\<lambda>x. \<not> ib x) alo blo (bi, bj, bs) = (i1, j1, k1)"
    by (metis prod_cases3)
  obtain i2 j2 k2 where e2: "extend_up (sm_a sm) (sm_b sm) (\<lambda>x. \<not> ib x) ahi bhi (i1, j1, k1) = (i2, j2, k2)"
    by (metis prod_cases3)
  obtain i3 j3 k3 where e3: "extend_down (sm_a sm) (sm_b sm) ib alo blo (i2, j2, k2) = (i3, j3, k3)"
    by (metis prod_cases3)
  obtain i4 j4 k4 where e4: "extend_up (sm_a sm) (sm_b sm) ib ahi bhi (i3, j3, k3) = (i4, j4, k4)"
    by (metis prod_cases3)
  have r: "find_longest_match sm alo ahi blo bhi = (i4, j4, k4)"
    by (simp add: find_longest_match_def Let_def st_def[symmetric] st ib_def[symmetric] e1 e2 e3 e4)
  from extend_down_bounds[OF e1 b0(1)] b0 have b1: "alo \<le> i1" "i1 + k1 \<le> ahi" by auto
  from extend_up_bounds[OF e2 b1(2)] b1 have b2: "alo \<le> i2" "i2 + k2 \<le> ahi" by auto
  from extend_down_bounds[OF e3 b2(1)] b2 have b3: "alo \<le> i3" "i3 + k3 \<le> ahi" by auto
  from extend_up_bounds[OF e4 b3(2)] b3 have "alo \<le> i4" "i4 + k4 \<le> ahi" by auto
  with r assms(1) show ?thesis by simp
qed

lemma find_longest_match_empty:
  "ahi \<le> alo \<Longrightarrow> find_longest_match sm alo ahi blo bhi = (alo, blo, 0)"
  by (simp add: find_longest_match_def Let_def extend_down.simps extend_up.simps)

text \<open>
  \<^verbatim>\<open>get_matching_blocks\<close>: the loop \<^verbatim>\<open>while queue\<close> takes the last entry of the list
  \<^verbatim>\<open>queue\<close> (\<^verbatim>\<open>queue.pop()\<close>), finds the longest match in it and, when that is not empty,
  appends the part before the match and then the part after it. The head of the model's
  list is the end of Python's list. The blocks found are then sorted (tuples compare
  lexicographically), adjacent blocks are collapsed, and the sentinel
  \<open>(len(a), len(b), 0)\<close> is appended.
\<close>

function mb_loop ::
  "'a seqmatcher \<Rightarrow> (nat \<times> nat \<times> nat \<times> nat) list \<Rightarrow> (nat \<times> nat \<times> nat) list \<Rightarrow>
   (nat \<times> nat \<times> nat) list" where
  "mb_loop sm [] matching_blocks = matching_blocks"
| "mb_loop sm ((alo, ahi, blo, bhi) # queue) matching_blocks =
     (case find_longest_match sm alo ahi blo bhi of (i, j, k) \<Rightarrow>
        if k \<noteq> 0 then
          mb_loop sm
            ((if i + k < ahi \<and> j + k < bhi then [(i + k, ahi, j + k, bhi)] else []) @
             (if alo < i \<and> blo < j then [(alo, i, blo, j)] else []) @ queue)
            (matching_blocks @ [(i, j, k)])
        else mb_loop sm queue matching_blocks)"
  by pat_completeness auto
termination
proof (relation "measure (\<lambda>(sm, queue, mbs). \<Sum>(alo, ahi, blo, bhi) \<leftarrow> queue. 2 * (ahi - alo) + 1)")
  show "wf (measure (\<lambda>(sm, queue, mbs). \<Sum>(alo, ahi, blo, bhi) \<leftarrow> queue. 2 * (ahi - alo) + 1))"
    by simp
next
  fix sm :: "'a seqmatcher" and alo ahi blo bhi queue and matching_blocks :: "(nat \<times> nat \<times> nat) list"
    and x i y j k
  assume flm: "(i, y) = find_longest_match sm alo ahi blo bhi" "(j, k) = y" and k: "k \<noteq> 0"
  have r: "find_longest_match sm alo ahi blo bhi = (i, j, k)" using flm by simp
  have lt: "alo < ahi"
  proof (rule ccontr)
    assume "\<not> alo < ahi"
    then have "find_longest_match sm alo ahi blo bhi = (alo, blo, 0)"
      by (intro find_longest_match_empty) simp
    with r k show False by simp
  qed
  from find_longest_match_bounds[OF r] lt have "alo \<le> i" "i + k \<le> ahi" by simp_all
  with k lt
  show "((sm, (if i + k < ahi \<and> j + k < bhi then [(i + k, ahi, j + k, bhi)] else []) @
              (if alo < i \<and> blo < j then [(alo, i, blo, j)] else []) @ queue,
          matching_blocks @ [(i, j, k)]),
         sm, (alo, ahi, blo, bhi) # queue, matching_blocks)
        \<in> measure (\<lambda>(sm, queue, mbs). \<Sum>(alo, ahi, blo, bhi) \<leftarrow> queue. 2 * (ahi - alo) + 1)"
    by auto
next
  fix sm :: "'a seqmatcher" and alo ahi blo bhi queue and matching_blocks :: "(nat \<times> nat \<times> nat) list"
    and x i y j k
  show "((sm, queue, matching_blocks), sm, (alo, ahi, blo, bhi) # queue, matching_blocks)
        \<in> measure (\<lambda>(sm, queue, mbs). \<Sum>(alo, ahi, blo, bhi) \<leftarrow> queue. 2 * (ahi - alo) + 1)"
    by simp
qed

declare mb_loop.simps [simp del]

definition collapse_step ::
  "nat \<times> nat \<times> nat \<times> (nat \<times> nat \<times> nat) list \<Rightarrow> nat \<times> nat \<times> nat \<Rightarrow>
   nat \<times> nat \<times> nat \<times> (nat \<times> nat \<times> nat) list" where
  "collapse_step st blk =
     (case st of (i1, j1, k1, non_adjacent) \<Rightarrow>
      case blk of (i2, j2, k2) \<Rightarrow>
        if i1 + k1 = i2 \<and> j1 + k1 = j2 then (i1, j1, k1 + k2, non_adjacent)
        else (i2, j2, k2, if k1 \<noteq> 0 then non_adjacent @ [(i1, j1, k1)] else non_adjacent))"

definition get_matching_blocks :: "'a seqmatcher \<Rightarrow> (nat \<times> nat \<times> nat) list" where
  "get_matching_blocks sm =
     (let la = length (sm_a sm); lb = length (sm_b sm);
          matching_blocks = sort (mb_loop sm [(0, la, 0, lb)] [])
      in case foldl collapse_step (0, 0, 0, []) matching_blocks of
           (i1, j1, k1, non_adjacent) \<Rightarrow>
             (if k1 \<noteq> 0 then non_adjacent @ [(i1, j1, k1)] else non_adjacent) @ [(la, lb, 0)])"

text \<open>
  \<^verbatim>\<open>get_opcodes\<close>: for each matching block, the edit that leads to it from the end of
  the block before (tag \<^verbatim>\<open>'replace'\<close>, \<^verbatim>\<open>'delete'\<close> or \<^verbatim>\<open>'insert'\<close>; none when the tag
  stays \<^verbatim>\<open>''\<close>), and the block itself (tag \<^verbatim>\<open>'equal'\<close>) unless it is the sentinel.
\<close>

datatype tag = Replace | Delete | Insert | Equal

type_synonym opcode = "tag \<times> nat \<times> nat \<times> nat \<times> nat"

definition opcode_step :: "nat \<times> nat \<times> opcode list \<Rightarrow> nat \<times> nat \<times> nat \<Rightarrow> nat \<times> nat \<times> opcode list" where
  "opcode_step st blk =
     (case st of (i, j, answer) \<Rightarrow>
      case blk of (ai, bj, sz) \<Rightarrow>
        (let tag = (if i < ai \<and> j < bj then Some Replace
                    else if i < ai then Some Delete
                    else if j < bj then Some Insert
                    else None);
             answer = (case tag of Some t \<Rightarrow> answer @ [(t, i, ai, j, bj)] | None \<Rightarrow> answer)
         in (ai + sz, bj + sz,
             if sz \<noteq> 0 then answer @ [(Equal, ai, ai + sz, bj, bj + sz)] else answer)))"

definition get_opcodes :: "'a seqmatcher \<Rightarrow> opcode list" where
  "get_opcodes sm =
     (case foldl opcode_step (0, 0, []) (get_matching_blocks sm) of (i, j, answer) \<Rightarrow> answer)"

text \<open>
  The three similarity ratios. Python computes \<open>2.0 * matches / length\<close> in binary
  floating point; the model computes the same quotient as a rational number. The
  comparisons made with it (against \<open>0.74\<close>, \<open>0.75\<close> and other such quotients) come out
  the same as long as the two lines compared have fewer than \<open>2 ^ 26\<close> characters between
  them, the quotients of different fractions with such denominators being further
  apart than the rounding error.
\<close>

definition calculate_ratio :: "nat \<Rightarrow> nat \<Rightarrow> rat" where
  "calculate_ratio matches len = (if len \<noteq> 0 then 2 * of_nat matches / of_nat len else 1)"

definition ratio :: "'a seqmatcher \<Rightarrow> rat" where
  "ratio sm =
     (let matches = sum_list (map (\<lambda>triple. case triple of (i, j, k) \<Rightarrow> k) (get_matching_blocks sm))
      in calculate_ratio matches (length (sm_a sm) + length (sm_b sm)))"

definition fullbcount_step :: "('a \<rightharpoonup> nat) \<Rightarrow> 'a \<Rightarrow> ('a \<rightharpoonup> nat)" where
  "fullbcount_step fullbcount elt =
     fullbcount(elt \<mapsto> (case fullbcount elt of None \<Rightarrow> 0 | Some n \<Rightarrow> n) + 1)"

definition avail_step :: "('a \<rightharpoonup> nat) \<Rightarrow> ('a \<rightharpoonup> int) \<times> nat \<Rightarrow> 'a \<Rightarrow> ('a \<rightharpoonup> int) \<times> nat" where
  "avail_step fullbcount st elt =
     (case st of (avail, matches) \<Rightarrow>
        (let numb = (case avail elt of Some n \<Rightarrow> n
                     | None \<Rightarrow> (case fullbcount elt of None \<Rightarrow> 0 | Some n \<Rightarrow> int n))
         in (avail(elt \<mapsto> numb - 1), if numb > 0 then matches + 1 else matches)))"

definition quick_ratio :: "'a seqmatcher \<Rightarrow> rat" where
  "quick_ratio sm =
     (let fullbcount = foldl fullbcount_step Map.empty (sm_b sm)
      in case foldl (avail_step fullbcount) (Map.empty, 0) (sm_a sm) of
           (avail, matches) \<Rightarrow> calculate_ratio matches (length (sm_a sm) + length (sm_b sm)))"

definition real_quick_ratio :: "'a seqmatcher \<Rightarrow> rat" where
  "real_quick_ratio sm =
     (let la = length (sm_a sm); lb = length (sm_b sm)
      in calculate_ratio (min la lb) (la + lb))"

section \<open>Differ and ndiff\<close>

text \<open>
  \<^verbatim>\<open>IS_CHARACTER_JUNK\<close> (a blank or a tab), \<^verbatim>\<open>_keep_original_ws\<close>, \<^verbatim>\<open>Differ._qformat\<close>
  (a hint line is \<^verbatim>\<open>"? "\<close>, the markers and a newline) and \<^verbatim>\<open>Differ._dump\<close> (the tag, a
  blank and the line, for each line of a range).
\<close>

definition IS_CHARACTER_JUNK :: "nat \<Rightarrow> bool" where
  "IS_CHARACTER_JUNK ch \<longleftrightarrow> ch \<in> set (str '' '' @ [9])"

definition keep_original_ws :: "pystr \<Rightarrow> pystr \<Rightarrow> pystr" where
  "keep_original_ws s tag_s =
     map (\<lambda>p. case p of (c, tag_c) \<Rightarrow> if tag_c = 32 \<and> isspace c then c else tag_c) (zip s tag_s)"

definition qformat :: "pystr \<Rightarrow> pystr \<Rightarrow> pystr \<Rightarrow> pystr \<Rightarrow> pystr list" where
  "qformat aline bline atags btags =
     (let atags = rstrip (keep_original_ws aline atags);
          btags = rstrip (keep_original_ws bline btags)
      in [str ''- '' @ aline] @
         (if atags \<noteq> [] then [str ''? '' @ atags @ [10]] else []) @
         [str ''+ '' @ bline] @
         (if btags \<noteq> [] then [str ''? '' @ btags @ [10]] else []))"

definition dump :: "nat \<Rightarrow> pystr list \<Rightarrow> nat \<Rightarrow> nat \<Rightarrow> pystr list" where
  "dump tag x lo hi = map (\<lambda>i. [tag, 32] @ x ! i) [lo..<hi]"

text \<open>
  \<^verbatim>\<open>Differ._plain_replace\<close> starts with \<^verbatim>\<open>assert alo < ahi and blo < bhi\<close>. The functions of
  \<^verbatim>\<open>Differ\<close> return an option for this reason: \<open>None\<close> is the \<^verbatim>\<open>AssertionError\<close>.
  (\<open>ndiff_total\<close> below shows that it is never raised.)
\<close>

definition plain_replace ::
  "pystr list \<Rightarrow> nat \<Rightarrow> nat \<Rightarrow> pystr list \<Rightarrow> nat \<Rightarrow> nat \<Rightarrow> pystr list option" where
  "plain_replace a alo ahi b blo bhi =
     (if \<not> (alo < ahi \<and> blo < bhi) then None
      else if bhi - blo < ahi - alo
      then Some (dump 43 b blo bhi @ dump 45 a alo ahi)
      else Some (dump 45 a alo ahi @ dump 43 b blo bhi))"

text \<open>
  \<^verbatim>\<open>Differ._fancy_replace\<close>, first part: the search for the pair of lines \<open>a[i]\<close>, \<open>b[j]\<close>
  that are most similar without being equal. The state is \<^verbatim>\<open>best_ratio\<close> (initially
  \<open>0.74\<close>), the pair \<^verbatim>\<open>best_i, best_j\<close> (unbound until a pair is found) and the first pair
  of equal lines \<^verbatim>\<open>eqi, eqj\<close> (initially \<^verbatim>\<open>None\<close>).
\<close>

definition fancy_inner ::
  "(nat \<Rightarrow> bool) option \<Rightarrow> pystr list \<Rightarrow> pystr list \<Rightarrow> nat \<Rightarrow> nat \<Rightarrow>
   rat \<times> (nat \<times> nat) option \<times> (nat \<times> nat) option \<Rightarrow>
   rat \<times> (nat \<times> nat) option \<times> (nat \<times> nat) option" where
  "fancy_inner charjunk a b j i st =
     (case st of (best_ratio, best, eq) \<Rightarrow>
        (let bj = b ! j; ai = a ! i
         in if ai = bj then (best_ratio, best, if eq = None then Some (i, j) else eq)
            else (let cruncher = SequenceMatcher charjunk ai bj
                  in if real_quick_ratio cruncher > best_ratio \<and>
                        quick_ratio cruncher > best_ratio \<and>
                        ratio cruncher > best_ratio
                     then (ratio cruncher, Some (i, j), eq)
                     else (best_ratio, best, eq))))"

definition fancy_search ::
  "(nat \<Rightarrow> bool) option \<Rightarrow> pystr list \<Rightarrow> nat \<Rightarrow> nat \<Rightarrow> pystr list \<Rightarrow> nat \<Rightarrow> nat \<Rightarrow>
   rat \<times> (nat \<times> nat) option \<times> (nat \<times> nat) option" where
  "fancy_search charjunk a alo ahi b blo bhi =
     fold (\<lambda>j. fold (fancy_inner charjunk a b j) [alo..<ahi]) [blo..<bhi] (74 / 100, None, None)"

text \<open>
  The markers of the hint lines, from the opcodes of the two lines compared character
  by character (with \<^verbatim>\<open>charjunk\<close> as the junk predicate).
\<close>

definition tag_step :: "pystr \<times> pystr \<Rightarrow> opcode \<Rightarrow> pystr \<times> pystr" where
  "tag_step st oc =
     (case st of (atags, btags) \<Rightarrow>
      case oc of (tag, ai1, ai2, bj1, bj2) \<Rightarrow>
        (let la = ai2 - ai1; lb = bj2 - bj1
         in case tag of
              Replace \<Rightarrow> (atags @ replicate la 94, btags @ replicate lb 94)
            | Delete \<Rightarrow> (atags @ replicate la 45, btags)
            | Insert \<Rightarrow> (atags, btags @ replicate lb 43)
            | Equal \<Rightarrow> (atags @ replicate la 32, btags @ replicate lb 32)))"

definition intraline :: "(nat \<Rightarrow> bool) option \<Rightarrow> pystr \<Rightarrow> pystr \<Rightarrow> pystr list" where
  "intraline charjunk aelt belt =
     (case foldl tag_step ([], []) (get_opcodes (SequenceMatcher charjunk aelt belt)) of
        (atags, btags) \<Rightarrow> qformat aelt belt atags btags)"

text \<open>
The pairs the search returns lie in the ranges searched.
\<close>

definition in_range :: "nat \<Rightarrow> nat \<Rightarrow> nat \<Rightarrow> nat \<Rightarrow> (nat \<times> nat) option \<Rightarrow> bool" where
  "in_range alo ahi blo bhi p \<longleftrightarrow>
     (case p of None \<Rightarrow> True | Some (i, j) \<Rightarrow> alo \<le> i \<and> i < ahi \<and> blo \<le> j \<and> j < bhi)"

lemma fancy_inner_range:
  assumes "in_range alo ahi blo bhi best" "in_range alo ahi blo bhi eq"
    "alo \<le> i" "i < ahi" "blo \<le> j" "j < bhi"
    "fancy_inner charjunk a b j i (r, best, eq) = (r', best', eq')"
  shows "in_range alo ahi blo bhi best' \<and> in_range alo ahi blo bhi eq'"
  using assms by (auto simp: fancy_inner_def Let_def in_range_def split: if_splits)

lemma fancy_search_range:
  assumes "fancy_search charjunk a alo ahi b blo bhi = (r, best, eq)"
  shows "in_range alo ahi blo bhi best \<and> in_range alo ahi blo bhi eq"
proof -
  define P where "P = (\<lambda>st :: rat \<times> (nat \<times> nat) option \<times> (nat \<times> nat) option.
      in_range alo ahi blo bhi (fst (snd st)) \<and> in_range alo ahi blo bhi (snd (snd st)))"
  have inner: "P (fold (fancy_inner charjunk a b j) is st)"
    if "P st" "set is \<subseteq> {alo..<ahi}" "blo \<le> j" "j < bhi" for j "is" st
    using that
  proof (induction "is" arbitrary: st)
    case Nil then show ?case by simp
  next
    case (Cons i "is")
    obtain r0 b0 e0 where st: "st = (r0, b0, e0)" by (cases st) auto
    obtain r1 b1 e1 where s1: "fancy_inner charjunk a b j i (r0, b0, e0) = (r1, b1, e1)"
      by (metis prod_cases3)
    have "P (r1, b1, e1)"
      using fancy_inner_range[OF _ _ _ _ Cons.prems(3,4) s1, of alo ahi] Cons.prems(1,2)
      by (simp add: P_def st)
    with Cons.IH[of "(r1, b1, e1)"] Cons.prems show ?case by (simp add: st s1)
  qed
  have outer: "P (fold (\<lambda>j. fold (fancy_inner charjunk a b j) [alo..<ahi]) js st)"
    if "P st" "set js \<subseteq> {blo..<bhi}" for js st
    using that
  proof (induction js arbitrary: st)
    case Nil then show ?case by simp
  next
    case (Cons j js)
    have "P (fold (fancy_inner charjunk a b j) [alo..<ahi] st)"
      using Cons.prems by (intro inner) auto
    with Cons.IH Cons.prems show ?case by simp
  qed
  have "P (74 / 100, None, None)" by (simp add: P_def in_range_def)
  from outer[OF this, of "[blo..<bhi]"] assms show ?thesis
    by (simp add: fancy_search_def P_def)
qed

lemma fancy_synch_range:
  assumes "(r, y) = fancy_search charjunk a alo ahi b blo bhi" "(best, eq) = y"
    "(synch, eqi) = (if c then (eq, eq) else (best, None))" "synch = Some x2" "(i, j) = x2"
  shows "alo \<le> i \<and> i < ahi \<and> blo \<le> j \<and> j < bhi"
proof -
  have "fancy_search charjunk a alo ahi b blo bhi = (r, best, eq)" using assms(1,2) by simp
  from fancy_search_range[OF this] assms(3,4,5) show ?thesis
    by (auto simp: in_range_def split: if_splits)
qed

text \<open>
  \<^verbatim>\<open>Differ._fancy_replace\<close>, second part, and \<^verbatim>\<open>Differ._fancy_helper\<close>. With no pair of
  ratio at least \<open>0.75\<close> and no pair of equal lines, the block is a plain replace.
  Otherwise the lines synch up on the close pair, or failing that on the equal pair
  (\<^verbatim>\<open>best_i, best_j = eqi, eqj\<close>; with a close pair \<^verbatim>\<open>eqi = None\<close>): the lines before the
  pair are compared, the pair is shown (with hint lines when \<^verbatim>\<open>eqi is None\<close>, as one
  unchanged line otherwise), and the lines after it are compared. \<open>None\<close> for \<open>synch\<close>
  would be Python's unbound \<^verbatim>\<open>best_i\<close>.
\<close>

function fancy_replace ::
    "(nat \<Rightarrow> bool) option \<Rightarrow> pystr list \<Rightarrow> nat \<Rightarrow> nat \<Rightarrow> pystr list \<Rightarrow> nat \<Rightarrow> nat \<Rightarrow> pystr list option"
  and fancy_helper ::
    "(nat \<Rightarrow> bool) option \<Rightarrow> pystr list \<Rightarrow> nat \<Rightarrow> nat \<Rightarrow> pystr list \<Rightarrow> nat \<Rightarrow> nat \<Rightarrow> pystr list option"
  where
  "fancy_replace charjunk a alo ahi b blo bhi =
     (case fancy_search charjunk a alo ahi b blo bhi of (best_ratio, best, eq) \<Rightarrow>
        if best_ratio < 75 / 100 \<and> eq = None then plain_replace a alo ahi b blo bhi
        else
          (case (if best_ratio < 75 / 100 then (eq, eq) else (best, None)) of (synch, eqi) \<Rightarrow>
             (case synch of
                None \<Rightarrow> None
              | Some (best_i, best_j) \<Rightarrow>
                  (case fancy_helper charjunk a alo best_i b blo best_j of
                     None \<Rightarrow> None
                   | Some front \<Rightarrow>
                       (case fancy_helper charjunk a (best_i + 1) ahi b (best_j + 1) bhi of
                          None \<Rightarrow> None
                        | Some back \<Rightarrow>
                            Some (front @
                                  (if eqi = None
                                   then intraline charjunk (a ! best_i) (b ! best_j)
                                   else [str ''  '' @ a ! best_i]) @
                                  back))))))"
| "fancy_helper charjunk a alo ahi b blo bhi =
     (if alo < ahi then
        (if blo < bhi then fancy_replace charjunk a alo ahi b blo bhi
         else Some (dump 45 a alo ahi))
      else if blo < bhi then Some (dump 43 b blo bhi)
      else Some [])"
  by pat_completeness auto
termination
proof (relation "measure (\<lambda>x. case x of
          Inl (cj, a, alo, ahi, b, blo, bhi) \<Rightarrow> 2 * ((ahi - alo) + (bhi - blo))
        | Inr (cj, a, alo, ahi, b, blo, bhi) \<Rightarrow> 2 * ((ahi - alo) + (bhi - blo)) + 1)",
       goal_cases)
  case 1 show ?case by simp
next
  case 2
  from fancy_synch_range[OF 2(1,2,4,5,6)] show ?case by auto
next
  case 3
  from fancy_synch_range[OF 3(1,2,4,5,6)] show ?case by auto
next
  case 4 then show ?case by simp
qed

declare fancy_replace.simps [simp del] fancy_helper.simps [simp del]

text \<open>
  \<^verbatim>\<open>Differ.compare\<close> runs through the opcodes of the two line sequences, and
  \<^verbatim>\<open>ndiff(a, b)\<close> is \<^verbatim>\<open>Differ(None, IS_CHARACTER_JUNK).compare(a, b)\<close>.
\<close>

definition compare_step ::
  "(nat \<Rightarrow> bool) option \<Rightarrow> pystr list \<Rightarrow> pystr list \<Rightarrow> pystr list option \<Rightarrow> opcode \<Rightarrow> pystr list option" where
  "compare_step charjunk a b acc oc =
     (case oc of (tag, alo, ahi, blo, bhi) \<Rightarrow>
        (let g = (case tag of
                    Replace \<Rightarrow> fancy_replace charjunk a alo ahi b blo bhi
                  | Delete \<Rightarrow> Some (dump 45 a alo ahi)
                  | Insert \<Rightarrow> Some (dump 43 b blo bhi)
                  | Equal \<Rightarrow> Some (dump 32 a alo ahi))
         in case acc of None \<Rightarrow> None
            | Some out \<Rightarrow> (case g of None \<Rightarrow> None | Some ls \<Rightarrow> Some (out @ ls))))"

definition Differ_compare ::
  "(pystr \<Rightarrow> bool) option \<Rightarrow> (nat \<Rightarrow> bool) option \<Rightarrow> pystr list \<Rightarrow> pystr list \<Rightarrow> pystr list option" where
  "Differ_compare linejunk charjunk a b =
     (let cruncher = SequenceMatcher linejunk a b
      in foldl (compare_step charjunk a b) (Some []) (get_opcodes cruncher))"

definition ndiff :: "pystr list \<Rightarrow> pystr list \<Rightarrow> pystr list option" where
  "ndiff a b = Differ_compare None (Some IS_CHARACTER_JUNK) a b"

section \<open>The window\<close>

text \<open>
  The state of \<^verbatim>\<open>DiffGUI\<close> that the callbacks read and write: the two path variables,
  the two check boxes, the text widget (the chunks inserted, each with its colour tag),
  the status line and \<^verbatim>\<open>last_diff_lines\<close>. What a callback does to the outside is a list
  of effects: the message boxes it opens and the file it writes.
\<close>

datatype tk_tag = Plus | Minus | Ctx | Meta | Hint

datatype effect =
    ShowWarning pystr pystr
  | ShowError pystr pystr
  | ShowInfo pystr pystr
  | FileWritten pystr pystr

record gui =
  file1 :: pystr
  file2 :: pystr
  ignore_case :: bool
  ignore_ws :: bool
  text_widget :: "(pystr \<times> tk_tag option) list"
  status :: pystr
  last_diff_lines :: "pystr list"

text \<open>
  The outside, as far as the callbacks ask it: whether a path exists, the lines of a
  file (\<^verbatim>\<open>Path(path).read_text(...).splitlines()\<close>, or the text of the exception), the
  outcome of \<^verbatim>\<open>Path(path).write_text(...)\<close> (\<open>None\<close> when it returns, the text of the
  exception otherwise) and the case folding table of the Python at hand. A write that
  fails may leave any content in the file; the model records a file as written only
  when the write returns.
\<close>

record world =
  path_exists :: "pystr \<Rightarrow> bool"
  read_lines :: "pystr \<Rightarrow> pystr + pystr list"
  write_text :: "pystr \<Rightarrow> pystr \<Rightarrow> pystr option"
  casefold_table :: "nat \<Rightarrow> pystr"

definition missing :: "world \<Rightarrow> pystr \<Rightarrow> bool" where
  "missing w path \<longleftrightarrow> \<not> path_exists w path"

definition read_text :: "world \<Rightarrow> pystr \<Rightarrow> pystr list option \<times> effect list" where
  "read_text w path =
     (case read_lines w path of
        Inr lines \<Rightarrow> (Some lines, [])
      | Inl e \<Rightarrow> (None, [ShowError (str ''Read error'')
                               (str ''Could not read '' @ path @ [10, 10] @ e)]))"

text \<open>
\<^verbatim>\<open>clear\<close>, \<^verbatim>\<open>self.text.insert("end", chars, tag)\<close> and \<^verbatim>\<open>insert_line\<close>.
\<close>

definition clear :: "gui \<Rightarrow> gui" where
  "clear st = st\<lparr>text_widget := [], status := str ''Cleared.'', last_diff_lines := []\<rparr>"

definition text_insert :: "gui \<Rightarrow> pystr \<Rightarrow> tk_tag option \<Rightarrow> gui" where
  "text_insert st chars tg = st\<lparr>text_widget := text_widget st @ [(chars, tg)]\<rparr>"

definition insert_line :: "gui \<Rightarrow> pystr \<Rightarrow> gui" where
  "insert_line st line =
     (if startswith line (str ''+'') then text_insert st line (Some Plus)
      else if startswith line (str ''-'') then text_insert st line (Some Minus)
      else if startswith line (str ''?'') then text_insert st line (Some Hint)
      else if startswith line (str ''---'') \<or> startswith line (str ''+++'') \<or>
              startswith line (str ''@@'') then text_insert st line (Some Meta)
      else if startswith line (str '' '') then text_insert st line (Some Ctx)
      else text_insert st line None)"

text \<open>
  \<^verbatim>\<open>compare\<close>. \<open>count_prefix p diff\<close> is \<^verbatim>\<open>sum(1 for l in diff if l.startswith(p))\<close>,
  \<open>header\<close> the four header lines and \<open>show_line\<close> the body of the loop over the diff.
  Where \<^verbatim>\<open>ndiff\<close> raised, the exception would leave the callback before it has changed
  anything.
\<close>

definition count_prefix :: "pystr \<Rightarrow> pystr list \<Rightarrow> nat" where
  "count_prefix p diff = sum_list (map (\<lambda>l. 1) (filter (\<lambda>l. startswith l p) diff))"

definition header :: "pystr \<Rightarrow> pystr \<Rightarrow> bool \<Rightarrow> bool \<Rightarrow> nat \<Rightarrow> nat \<Rightarrow> nat \<Rightarrow> pystr list" where
  "header path1 path2 ic iw added removed changed_hints =
     [str ''Comparing:'' @ [10] @ str ''  A: '' @ path1 @ [10] @ str ''  B: '' @ path2 @ [10],
      str ''Options: ignore_case='' @ str_bool ic @ str ''  ignore_whitespace='' @ str_bool iw @ [10],
      str ''Summary: +'' @ str_nat added @ str ''  -'' @ str_nat removed @ str ''  ?'' @
        str_nat changed_hints @ str '' (hints)'' @ [10],
      replicate 80 45 @ [10]]"

definition show_line :: "gui \<Rightarrow> pystr \<Rightarrow> gui" where
  "show_line st line =
     (let out = line @ [10];
          st = insert_line st out
      in st\<lparr>last_diff_lines := last_diff_lines st @ [out]\<rparr>)"

definition compare :: "world \<Rightarrow> gui \<Rightarrow> gui \<times> effect list" where
  "compare w st =
     (let path1 = strip (file1 st); path2 = strip (file2 st)
      in if path1 = [] \<or> path2 = [] then
           (st, [ShowWarning (str ''Missing file'') (str ''Please choose both File A and File B.'')])
         else if missing w path1 \<or> missing w path2 then
           (st, [ShowWarning (str ''Invalid file'') (str ''One or both file paths do not exist.'')])
         else
           (case read_text w path1 of (lines1, e1) \<Rightarrow>
            case read_text w path2 of (lines2, e2) \<Rightarrow>
              (case (lines1, lines2) of
                 (Some lines1, Some lines2) \<Rightarrow>
                   (let norm1 = normalize_lines (casefold_table w) lines1 (ignore_case st) (ignore_ws st);
                        norm2 = normalize_lines (casefold_table w) lines2 (ignore_case st) (ignore_ws st)
                    in case ndiff norm1 norm2 of
                         None \<Rightarrow> (st, e1 @ e2)
                       | Some diff \<Rightarrow>
                           (let added = count_prefix (str ''+ '') diff;
                                removed = count_prefix (str ''- '') diff;
                                changed_hints = count_prefix (str ''? '') diff;
                                st = clear st;
                                st = foldl (\<lambda>st h. text_insert st h (Some Meta)) st
                                       (header path1 path2 (ignore_case st) (ignore_ws st)
                                          added removed changed_hints);
                                st = st\<lparr>last_diff_lines := []\<rparr>;
                                st = foldl show_line st diff;
                                st = st\<lparr>status := str ''Done. Added: '' @ str_nat added @
                                       str '', Removed: '' @ str_nat removed @
                                       str '', Hints: '' @ str_nat changed_hints\<rparr>
                            in (st, e1 @ e2)))
               | _ \<Rightarrow> (st, e1 @ e2))))"

text \<open>
  \<^verbatim>\<open>save_diff\<close>; \<open>chosen\<close> is what the file dialog returns (the empty string when it
  is cancelled).
\<close>

definition save_diff :: "world \<Rightarrow> gui \<Rightarrow> pystr \<Rightarrow> gui \<times> effect list" where
  "save_diff w st chosen =
     (if last_diff_lines st = [] then
        (st, [ShowInfo (str ''No diff'') (str ''Nothing to save. Run a comparison first.'')])
      else
        (let path = chosen
         in if path = [] then (st, [])
            else (case write_text w path (concat (last_diff_lines st)) of
                    None \<Rightarrow> (st\<lparr>status := str ''Saved diff to '' @ path\<rparr>,
                              [FileWritten path (concat (last_diff_lines st))])
                  | Some e \<Rightarrow> (st, [ShowError (str ''Save error'')
                                       (str ''Could not save diff'' @ [10, 10] @ e)]))))"

section \<open>Notions the properties are stated with\<close>

text \<open>
  The records of a diff are its lines: a Context record starts with two blanks, an
  Insertion with \<^verbatim>\<open>"+ "\<close>, a Deletion with \<^verbatim>\<open>"- "\<close> and a Hint with \<^verbatim>\<open>"? "\<close>.
  \<open>swap_tag\<close> turns an Insertion into the Deletion of the same text and back,
  \<open>edit_pattern\<close> drops the Hint records, and \<open>mirrored a b\<close> is the symmetry law of the
  specification at \<open>a\<close> and \<open>b\<close>: the diff of \<open>a\<close> and \<open>b\<close> with Insertions and Deletions
  swapped is the diff of \<open>b\<close> and \<open>a\<close>, hints apart.
\<close>

definition swap_tag :: "pystr \<Rightarrow> pystr" where
  "swap_tag l =
     (if startswith l (str ''+ '') then str ''- '' @ drop 2 l
      else if startswith l (str ''- '') then str ''+ '' @ drop 2 l
      else l)"

definition edit_pattern :: "pystr list \<Rightarrow> pystr list" where
  "edit_pattern diff = filter (\<lambda>l. \<not> startswith l (str ''? '')) diff"

definition mirrored :: "pystr list \<Rightarrow> pystr list \<Rightarrow> bool" where
  "mirrored a b \<longleftrightarrow>
     map_option (\<lambda>d. map swap_tag (edit_pattern d)) (ndiff a b) = map_option edit_pattern (ndiff b a)"

text \<open>
  A window in which a diff is shown, and an outside in which both files hold the one
  line \<^verbatim>\<open>"a  b"\<close> and every write has the given outcome.
\<close>

definition demo_gui :: gui where
  "demo_gui = \<lparr>file1 = str ''A.txt'', file2 = str ''B.txt'', ignore_case = False,
     ignore_ws = True, text_widget = [], status = str ''Pick two files and click Compare.'',
     last_diff_lines = [str ''  a b'' @ [10]]\<rparr>"

definition demo_world :: "pystr option \<Rightarrow> world" where
  "demo_world failure = \<lparr>path_exists = (\<lambda>p. True), read_lines = (\<lambda>p. Inr [str ''a  b'']),
     write_text = (\<lambda>p c. failure), casefold_table = fold_excerpt\<rparr>"

text \<open>
  For the proofs: the positions of \<open>x\<close> in \<open>b\<close> counted from \<open>k\<close>; a dictionary whose
  entries are such lists; and, for the comparison of a sequence with itself, the
  length of the run of elements with an entry in \<^verbatim>\<open>b2j\<close> that ends at position \<open>i\<close>,
  with the invariant of the loop of \<open>find_longest_match\<close> it gives.
\<close>

fun positions :: "'a list \<Rightarrow> 'a \<Rightarrow> nat \<Rightarrow> nat list" where
  "positions [] x k = []"
| "positions (y # ys) x k = (if y = x then [k] else []) @ positions ys x (Suc k)"

definition b2j_ok :: "('a \<rightharpoonup> nat list) \<Rightarrow> 'a list \<Rightarrow> bool" where
  "b2j_ok b2j b \<longleftrightarrow> (\<forall>x js. b2j x = Some js \<longrightarrow> js = positions b x 0)"

fun run_len :: "('a \<rightharpoonup> nat list) \<Rightarrow> 'a list \<Rightarrow> nat \<Rightarrow> nat" where
  "run_len b2j L 0 = (if b2j (L ! 0) = None then 0 else 1)"
| "run_len b2j L (Suc i) = (if b2j (L ! Suc i) = None then 0 else run_len b2j L i + 1)"

definition same_inv ::
  "('a \<rightharpoonup> nat list) \<Rightarrow> 'a list \<Rightarrow> nat \<Rightarrow> (nat \<rightharpoonup> nat) \<times> nat \<times> nat \<times> nat \<Rightarrow> bool" where
  "same_inv b2j L i st \<longleftrightarrow>
     (case st of (j2len, bi, bj, bs) \<Rightarrow>
        bj = bi \<and> (\<forall>m<i. run_len b2j L m \<le> bs) \<and>
        (\<forall>j v. j2len j = Some v \<longrightarrow> 0 < i \<and> v \<le> run_len b2j L j \<and> v \<le> run_len b2j L (i - 1)) \<and>
        (0 < i \<longrightarrow> j2len (i - 1) =
           (if b2j (L ! (i - 1)) = None then None else Some (run_len b2j L (i - 1)))))"

section \<open>Properties of the normalizer\<close>

lemma str_space: "str '' '' = [32]"
  by (simp add: str_def)

lemma normalize_lines_map:
  "normalize_lines cf lines ic iw = map (normalize_line cf ic iw) lines"
proof -
  have "foldl (\<lambda>norm line. norm @ [normalize_line cf ic iw line]) acc lines =
        acc @ map (normalize_line cf ic iw) lines" for acc
    by (induction lines arbitrary: acc) simp_all
  then show ?thesis by (simp add: normalize_lines_def)
qed

lemma split_ws_dropWhile: "split_ws (dropWhile isspace s) = split_ws s"
  by (subst (1 2) split_ws.simps) (simp add: dropWhile_idem)

lemma squeeze_nonws_prefix:
  "squeeze_ws r = takeWhile (\<lambda>c. \<not> isspace c) r @ squeeze_ws (dropWhile (\<lambda>c. \<not> isspace c) r)"
  by (induction r) auto

lemma rstrip_append:
  "rstrip (xs @ ys) = (if rstrip ys = [] then rstrip xs else xs @ rstrip ys)"
  by (auto simp: rstrip_def dropWhile_append dropWhile_eq_Nil_conv)

lemma rstrip_nonws: "\<forall>c \<in> set w. \<not> isspace c \<Longrightarrow> rstrip w = w"
proof -
  assume a: "\<forall>c \<in> set w. \<not> isspace c"
  have "dropWhile isspace (rev w) = rev w"
    using a by (cases "rev w") (auto simp: rev_swap[symmetric])
  then show ?thesis by (simp add: rstrip_def)
qed

lemma join_Cons: "join sep (x # ys) = (if ys = [] then x else x @ sep @ join sep ys)"
  by (cases ys) simp_all

lemma squeeze_split_aux:
  "r \<noteq> [] \<Longrightarrow> \<not> isspace (hd r) \<Longrightarrow>
     rstrip (squeeze_ws r) = join [32] (split_ws r) \<and> split_ws r \<noteq> [] \<and> rstrip (squeeze_ws r) \<noteq> []"
proof (induction "length r" arbitrary: r rule: less_induct)
  case less
  define w where "w = takeWhile (\<lambda>c. \<not> isspace c) r"
  define t where "t = dropWhile (\<lambda>c. \<not> isspace c) r"
  define t' where "t' = dropWhile isspace t"
  have dr: "dropWhile isspace r = r" using less.prems by (cases r) auto
  have wne: "w \<noteq> []" using less.prems by (cases r) (auto simp: w_def)
  have wns: "\<forall>c \<in> set w. \<not> isspace c" unfolding w_def by (auto dest: set_takeWhileD)
  have sq: "squeeze_ws r = w @ squeeze_ws t" unfolding w_def t_def by (rule squeeze_nonws_prefix)
  have sp: "split_ws r = w # split_ws t'"
    unfolding t'_def split_ws_dropWhile
    by (subst split_ws.simps) (use less.prems dr in \<open>simp add: w_def t_def Let_def\<close>)
  have rw: "rstrip w = w" using wns by (rule rstrip_nonws)
  show ?case
  proof (cases "t = []")
    case True
    then have "t' = []" by (simp add: t'_def)
    then have "split_ws t' = []" by (subst split_ws.simps) simp
    with True sq sp rw wne show ?thesis by (simp add: rstrip_def)
  next
    case tne: False
    have "isspace (hd t)" using tne unfolding t_def by (metis hd_dropWhile)
    then have sqt: "squeeze_ws t = 32 # squeeze_ws t'"
      using tne unfolding t'_def by (cases t) auto
    show ?thesis
    proof (cases "t' = []")
      case True
      then have "split_ws t' = []" by (subst split_ws.simps) simp
      moreover have "rstrip (w @ [32]) = w"
        using rw by (simp add: rstrip_append) (simp add: rstrip_def isspace_def)
      ultimately show ?thesis using True sq sp sqt wne by simp
    next
      case False
      have h: "\<not> isspace (hd t')" using False unfolding t'_def by (metis hd_dropWhile)
      have "length t' \<le> length t" unfolding t'_def by (rule length_dropWhile_le)
      moreover have "length t < length r"
        using wne unfolding t_def w_def
        by (metis (no_types, lifting) append_self_conv2 length_append length_greater_0_conv
            less_add_same_cancel2 takeWhile_dropWhile_id)
      ultimately have "length t' < length r" by simp
      from less.hyps[OF this False h]
      have ih: "rstrip (squeeze_ws t') = join [32] (split_ws t')" "split_ws t' \<noteq> []"
               "rstrip (squeeze_ws t') \<noteq> []" by blast+
      have "rstrip (32 # squeeze_ws t') = 32 # rstrip (squeeze_ws t')"
        using rstrip_append[of "[32]" "squeeze_ws t'"] ih(3) by simp
      then have "rstrip (squeeze_ws r) = w @ 32 # rstrip (squeeze_ws t')"
        using sq sqt ih(3) by (simp add: rstrip_append)
      then show ?thesis using ih sp by (simp add: join_Cons)
    qed
  qed
qed

lemma squeeze_dropWhile:
  "dropWhile isspace (squeeze_ws s) = squeeze_ws (dropWhile isspace s)"
proof (cases s)
  case Nil then show ?thesis by simp
next
  case (Cons c s')
  show ?thesis
  proof (cases "isspace c")
    case False with Cons show ?thesis by simp
  next
    case True
    have "dropWhile isspace (squeeze_ws (dropWhile isspace s')) = squeeze_ws (dropWhile isspace s')"
    proof (cases "dropWhile isspace s'")
      case Nil show ?thesis unfolding Nil by simp
    next
      case (Cons d u)
      then have "\<not> isspace d" by (metis hd_dropWhile list.sel(1) list.distinct(1))
      with Cons show ?thesis by simp
    qed
    with True Cons show ?thesis by (simp add: isspace_def)
  qed
qed

lemma join_split_eq_strip_squeeze: "join [32] (split_ws s) = strip (squeeze_ws s)"
proof (cases "dropWhile isspace s = []")
  case True
  then have "split_ws s = []" by (subst split_ws.simps) simp
  moreover have "strip (squeeze_ws s) = []"
    unfolding strip_def squeeze_dropWhile True by (simp add: rstrip_def)
  ultimately show ?thesis by simp
next
  case False
  then have "\<not> isspace (hd (dropWhile isspace s))" by (metis hd_dropWhile)
  from squeeze_split_aux[OF False this] show ?thesis
    by (simp add: strip_def squeeze_dropWhile split_ws_dropWhile)
qed

lemma words_ok_Nil: "words_ok []"
  by (simp add: words_ok_def)

lemma words_ok_Cons:
  "words_ok (w # ws) \<longleftrightarrow> w \<noteq> [] \<and> (\<forall>c \<in> set w. \<not> isspace c) \<and> words_ok ws"
  by (simp add: words_ok_def)

lemma nonws_takeWhile: "c \<in> set (takeWhile (\<lambda>c. \<not> isspace c) r) \<Longrightarrow> \<not> isspace c"
  by (drule set_takeWhileD) blast

lemma split_ws_words: "words_ok (split_ws s)"
proof (induction s rule: split_ws.induct)
  case (1 s)
  define r where "r = dropWhile isspace s"
  show ?case
  proof (cases "r = []")
    case True
    then have "split_ws s = []" unfolding r_def by (subst split_ws.simps) simp
    then show ?thesis by (simp only: words_ok_Nil)
  next
    case False
    have eq: "split_ws s = takeWhile (\<lambda>c. \<not> isspace c) r # split_ws (dropWhile (\<lambda>c. \<not> isspace c) r)"
      using False unfolding r_def by (subst split_ws.simps) (simp add: Let_def)
    have "\<not> isspace (hd r)" using False unfolding r_def by (metis hd_dropWhile)
    then have A: "takeWhile (\<lambda>c. \<not> isspace c) r \<noteq> []" using False by (cases r) auto
    have C: "words_ok (split_ws (dropWhile (\<lambda>c. \<not> isspace c) r))"
      using "1.IH"[OF r_def False] .
    have B: "\<forall>c \<in> set (takeWhile (\<lambda>c. \<not> isspace c) r). \<not> isspace c"
      by (blast dest: nonws_takeWhile)
    show ?thesis unfolding eq words_ok_Cons using A B C by blast
  qed
qed

lemma split_ws_word_append:
  assumes "w \<noteq> []" "\<forall>c \<in> set w. \<not> isspace c" "rest = [] \<or> isspace (hd rest)"
  shows "split_ws (w @ rest) = w # split_ws rest"
proof -
  have d: "dropWhile isspace (w @ rest) = w @ rest" using assms(1,2) by (cases w) auto
  have t: "takeWhile (\<lambda>c. \<not> isspace c) (w @ rest) = w"
    using assms(2,3) by (cases rest) (auto simp: takeWhile_append)
  have "dropWhile (\<lambda>c. \<not> isspace c) (w @ rest) = rest"
    using assms(2,3) by (cases rest) (auto simp: dropWhile_append)
  with d t assms(1) show ?thesis by (subst split_ws.simps) (simp add: Let_def)
qed

lemma split_ws_join: "words_ok ws \<Longrightarrow> split_ws (join [32] ws) = ws"
proof (induction ws)
  case Nil
  show ?case by (subst split_ws.simps) simp
next
  case (Cons w ws)
  then have w: "w \<noteq> []" "\<forall>c \<in> set w. \<not> isspace c" and ok: "words_ok ws"
    by (simp_all add: words_ok_def)
  show ?case
  proof (cases "ws = []")
    case True
    have "split_ws (w @ []) = w # split_ws []" by (rule split_ws_word_append[OF w]) simp
    moreover have "split_ws [] = []" by (subst split_ws.simps) simp
    ultimately show ?thesis using True by simp
  next
    case False
    have "split_ws (w @ 32 # join [32] ws) = w # split_ws (32 # join [32] ws)"
      by (rule split_ws_word_append[OF w]) (simp add: isspace_def)
    moreover have "split_ws (32 # join [32] ws) = split_ws (join [32] ws)"
      using split_ws_dropWhile[of "32 # join [32] ws"] split_ws_dropWhile[of "join [32] ws"]
      by (simp add: isspace_def)
    ultimately show ?thesis using False Cons.IH[OF ok] by (simp add: join_Cons)
  qed
qed

lemma casefold_append: "casefold cf (xs @ ys) = casefold cf xs @ casefold cf ys"
  by (simp add: casefold_def)

lemma casefold_join:
  "cf 32 = [32] \<Longrightarrow> casefold cf (join [32] ws) = join [32] (map (casefold cf) ws)"
proof (induction ws)
  case Nil show ?case by (simp add: casefold_def)
next
  case (Cons w ws)
  have "casefold cf [32] = [32]" using Cons.prems by (simp add: casefold_def)
  with Cons show ?case by (simp add: join_Cons casefold_append) (simp add: casefold_def)
qed

lemma casefold_idem:
  "\<forall>c. concat (map cf (cf c)) = cf c \<Longrightarrow> casefold cf (casefold cf s) = casefold cf s"
proof (induction s)
  case Nil show ?case by (simp add: casefold_def)
next
  case (Cons c s)
  have "casefold cf (casefold cf (c # s)) = casefold cf (cf c) @ casefold cf (casefold cf s)"
    by (simp add: casefold_def)
  also have "casefold cf (cf c) = cf c" using Cons.prems by (simp add: casefold_def)
  finally show ?case using Cons by (simp add: casefold_def)
qed

lemma words_ok_casefold:
  assumes "fold_table_ok cf" "words_ok ws"
  shows "words_ok (map (casefold cf) ws)"
proof -
  have "casefold cf w \<noteq> [] \<and> (\<forall>c \<in> set (casefold cf w). \<not> isspace c)"
    if "w \<noteq> []" "\<forall>c \<in> set w. \<not> isspace c" for w
  proof -
    from that(1) obtain x xs where wx: "w = x # xs" by (cases w) auto
    with that(2) assms(1) have "cf x \<noteq> []" by (simp add: fold_table_ok_def)
    then have "casefold cf w \<noteq> []" by (simp add: wx casefold_def)
    moreover have "\<forall>c \<in> set (casefold cf w). \<not> isspace c"
      using that(2) assms(1) by (auto simp: casefold_def fold_table_ok_def)
    ultimately show ?thesis by simp
  qed
  with assms(2) show ?thesis by (auto simp: words_ok_def)
qed

lemma normalize_line_idem:
  assumes "ic \<Longrightarrow> fold_table_ok cf"
  shows "normalize_line cf ic iw (normalize_line cf ic iw s) = normalize_line cf ic iw s"
proof (cases ic)
  case False
  then show ?thesis
    using split_ws_join[OF split_ws_words[of s]] by (simp add: normalize_line_def str_space)
next
  case True
  with assms have ok: "fold_table_ok cf" by simp
  then have idem: "casefold cf (casefold cf t) = casefold cf t" for t
    by (intro casefold_idem) (simp add: fold_table_ok_def)
  show ?thesis
  proof (cases iw)
    case False with True idem show ?thesis by (simp add: normalize_line_def)
  next
    case iw: True
    have sp: "cf 32 = [32]" using ok by (simp add: fold_table_ok_def)
    define ws where "ws = map (casefold cf) (split_ws s)"
    have wok: "words_ok ws" unfolding ws_def by (rule words_ok_casefold[OF ok split_ws_words])
    have n1: "normalize_line cf ic iw s = join [32] ws"
      using True iw by (simp add: normalize_line_def str_space casefold_join[of cf, OF sp] ws_def)
    have "normalize_line cf ic iw (join [32] ws) = casefold cf (join [32] ws)"
      using True iw by (simp add: normalize_line_def str_space split_ws_join[OF wok])
    also have "\<dots> = join [32] ws"
      unfolding ws_def casefold_join[of cf, OF sp, symmetric] by (rule idem)
    finally show ?thesis by (simp add: n1)
  qed
qed

lemma not_isspace_letters: "97 \<le> c \<Longrightarrow> c \<le> 122 \<Longrightarrow> \<not> isspace c"
  by (simp add: isspace_def)

lemma fold_excerpt_cases:
  obtains "65 \<le> c" "c \<le> 90" "fold_excerpt c = [c + 32]"
  | "fold_excerpt c = [115, 115]" | "fold_excerpt c = [105, 775]" | "fold_excerpt c = [963]"
  | "\<not> (65 \<le> c \<and> c \<le> 90)" "fold_excerpt c = [c]"
  unfolding fold_excerpt_def
  by (cases "65 \<le> c \<and> c \<le> 90"; cases "c = 223"; cases "c = 304"; cases "c = 931 \<or> c = 962")
     simp_all

lemma fold_excerpt_fixed:
  "fold_excerpt 115 = [115]" "fold_excerpt 105 = [105]" "fold_excerpt 775 = [775]"
  "fold_excerpt 963 = [963]" "fold_excerpt 32 = [32]"
  by (simp_all add: fold_excerpt_def)

lemma fold_excerpt_small: "97 \<le> c \<Longrightarrow> c \<le> 122 \<Longrightarrow> fold_excerpt c = [c]"
  by (simp add: fold_excerpt_def)

lemma fold_excerpt_ok: "fold_table_ok fold_excerpt"
  unfolding fold_table_ok_def
proof (intro conjI allI impI)
  fix c show "concat (map fold_excerpt (fold_excerpt c)) = fold_excerpt c"
    by (cases c rule: fold_excerpt_cases) (simp_all add: fold_excerpt_fixed fold_excerpt_small)
next
  show "fold_excerpt 32 = [32]" by (rule fold_excerpt_fixed)
next
  fix c assume "\<not> isspace c" show "fold_excerpt c \<noteq> []"
    by (cases c rule: fold_excerpt_cases) simp_all
next
  fix c assume ns: "\<not> isspace c"
  have fixed: "\<not> isspace 115" "\<not> isspace 105" "\<not> isspace 775" "\<not> isspace 963"
    by (simp_all add: isspace_def)
  show "\<forall>d\<in>set (fold_excerpt c). \<not> isspace d"
    by (cases c rule: fold_excerpt_cases) (simp_all add: fixed ns not_isspace_letters)
qed

subsection \<open>The claims about the normalizer\<close>

text \<open>
  Claim C2. For every line and every setting of the two options, the normalizer maps
  the line as the specification says: with \<open>ignore_ws\<close> (\<open>iw\<close>), every maximal run of
  whitespace becomes a single space and leading and trailing whitespace is stripped;
  with \<open>ignore_case\<close> (\<open>ic\<close>), the result is then case folded by \<^verbatim>\<open>str.casefold\<close>, which folds
  every code point through the Unicode table \<open>cf\<close>, whatever the table holds for it
  (no restriction to ASCII). The code's \<^verbatim>\<open>" ".join(s.split())\<close> is compared with the
  specification's wording \<open>strip (squeeze_ws s)\<close>.
\<close>

theorem normalize_lines_refines_spec:
  "normalize_lines cf lines ic iw =
     map (spec_normalize_line cf ic iw) lines"
proof -
  have "normalize_line cf ic iw line =
        spec_normalize_line cf ic iw line" for line
    by (simp add: normalize_line_def spec_normalize_line_def str_space
        join_split_eq_strip_squeeze)
  then show ?thesis by (simp add: normalize_lines_map)
qed

text \<open>
  Claim C3. For every line sequence, the empty one included, and every setting of
  the options, \<open>normalize_lines\<close> returns a sequence of the same length whose \<open>i\<close>-th
  line is the normalized \<open>i\<close>-th input line, and the empty sequence on empty input.
  The model is a total function of its arguments: it has no error result to return
  and no state to change.
\<close>

theorem normalize_lines_length_order:
  "length (normalize_lines cf lines ic iw) = length lines \<and>
   normalize_lines cf lines ic iw =
     map (normalize_line cf ic iw) lines \<and>
   normalize_lines cf [] ic iw = []"
  by (simp add: normalize_lines_map)

text \<open>
  Claim C4. The normalizer is idempotent: normalizing a normalized line sequence
  again, under the same options, changes nothing. Where \<open>ignore_case\<close> is set this
  rests on the folding table \<open>cf\<close>, which the repository does not contain, being a
  case folding in the sense of \<open>fold_table_ok\<close>.
\<close>

theorem normalize_lines_idempotent:
  assumes "ic \<Longrightarrow> fold_table_ok cf"
  shows "normalize_lines cf (normalize_lines cf lines ic iw) ic iw =
         normalize_lines cf lines ic iw"
  using normalize_line_idem[of ic cf iw] assms
  by (simp add: normalize_lines_map)

theorem normalize_lines_idempotent_witness:
  "fold_table_ok fold_excerpt \<and>
   normalize_lines fold_excerpt
     (normalize_lines fold_excerpt [[32, 83, 116, 114, 97, 223, 101, 9, 9, 931, 32], str ''A  b''] True True)
     True True =
   normalize_lines fold_excerpt [[32, 83, 116, 114, 97, 223, 101, 9, 9, 931, 32], str ''A  b''] True True"
  using normalize_lines_idempotent[of True fold_excerpt
      "[[32, 83, 116, 114, 97, 223, 101, 9, 9, 931, 32], str ''A  b'']" True]
    fold_excerpt_ok
  by simp

text \<open>
  Claim C10. With both options off the normalizer is the identity on line sequences,
  so the default comparison is over the lines as they were read.
\<close>

theorem normalize_lines_no_options_identity:
  "normalize_lines cf lines False False = lines"
proof -
  have "normalize_line cf False False = id"
    by (rule ext) (simp add: normalize_line_def)
  then show ?thesis by (simp add: normalize_lines_map)
qed

section \<open>Properties of the differ\<close>

subsection \<open>Evaluation, and diffs against the empty sequence\<close>

lemmas eval_simps =
  ndiff_def Differ_compare_def compare_step_def SequenceMatcher_def chain_b_def b2j_append_def
  get_opcodes_def opcode_step_def get_matching_blocks_def collapse_step_def mb_loop.simps
  find_longest_match_def flm_outer_def prev_len_def extend_down.simps extend_up.simps
  fancy_replace.simps fancy_helper.simps fancy_search_def fancy_inner_def plain_replace_def
  dump_def intraline_def tag_step_def qformat_def keep_original_ws_def rstrip_def isspace_def
  ratio_def quick_ratio_def real_quick_ratio_def calculate_ratio_def fullbcount_step_def
  avail_step_def IS_CHARACTER_JUNK_def str_def Let_def

lemma sm_a_SequenceMatcher: "sm_a (SequenceMatcher isjunk a b) = a"
  by (simp add: SequenceMatcher_def split: prod.splits)

lemma sm_b_SequenceMatcher: "sm_b (SequenceMatcher isjunk a b) = b"
  by (simp add: SequenceMatcher_def split: prod.splits)

lemma chain_b_Nil: "chain_b isjunk [] = (Map.empty, {}, {})"
  by (cases isjunk) (simp_all add: chain_b_def)

lemma sm_b2j_Nil: "sm_b2j (SequenceMatcher isjunk a []) = Map.empty"
  by (simp add: SequenceMatcher_def chain_b_Nil)

lemma flm_outer_empty_b2j:
  "fold (flm_outer a Map.empty blo bhi) is (j2len, best) = (if is = [] then j2len else Map.empty, best)"
  by (induction "is" arbitrary: j2len) (auto simp: flm_outer_def)

lemma find_longest_match_empty_b:
  assumes "sm_b2j sm = Map.empty"
  shows "find_longest_match sm alo ahi 0 0 = (alo, 0, 0)"
  unfolding find_longest_match_def Let_def assms flm_outer_empty_b2j prod.case
  by (simp add: extend_down.simps extend_up.simps)

lemma find_longest_match_empty_a:
  "find_longest_match sm 0 0 blo bhi = (0, blo, 0)"
  unfolding find_longest_match_def Let_def
  by (simp add: extend_down.simps extend_up.simps)

lemma mb_loop_no_match:
  assumes "find_longest_match sm alo ahi blo bhi = (i, j, 0)"
  shows "mb_loop sm [(alo, ahi, blo, bhi)] [] = []"
  by (simp add: mb_loop.simps assms)

lemma get_matching_blocks_none:
  assumes "mb_loop sm [(0, length (sm_a sm), 0, length (sm_b sm))] [] = []"
  shows "get_matching_blocks sm = [(length (sm_a sm), length (sm_b sm), 0)]"
  by (simp add: get_matching_blocks_def assms)

lemma opcode_step_sentinel:
  "opcode_step (i, j, answer) (la, lb, 0) =
     (la, lb,
      if i < la \<and> j < lb then answer @ [(Replace, i, la, j, lb)]
      else if i < la then answer @ [(Delete, i, la, j, lb)]
      else if j < lb then answer @ [(Insert, i, la, j, lb)] else answer)"
  unfolding opcode_step_def prod.case Let_def by simp

lemma get_opcodes_none:
  assumes "get_matching_blocks sm = [(la, lb, 0)]"
  shows "get_opcodes sm =
     (if 0 < la \<and> 0 < lb then [(Replace, 0, la, 0, lb)]
      else if 0 < la then [(Delete, 0, la, 0, lb)]
      else if 0 < lb then [(Insert, 0, la, 0, lb)] else [])"
  unfolding get_opcodes_def assms foldl.simps opcode_step_sentinel prod.case by simp

lemma dump_all: "dump tg x 0 (length x) = map (\<lambda>l. [tg, 32] @ l) x"
  by (rule nth_equalityI) (simp_all add: dump_def)

lemma get_opcodes_empty_b:
  "get_opcodes (SequenceMatcher isjunk a []) = (if a = [] then [] else [(Delete, 0, length a, 0, 0)])"
proof -
  let ?sm = "SequenceMatcher isjunk a []"
  have "find_longest_match ?sm 0 (length a) 0 0 = (0, 0, 0)"
    by (rule find_longest_match_empty_b) (rule sm_b2j_Nil)
  then have "mb_loop ?sm [(0, length (sm_a ?sm), 0, length (sm_b ?sm))] [] = []"
    unfolding sm_a_SequenceMatcher sm_b_SequenceMatcher by (simp add: mb_loop_no_match)
  then have "get_matching_blocks ?sm = [(length a, 0, 0)]"
    using get_matching_blocks_none[of ?sm]
    by (simp add: sm_a_SequenceMatcher sm_b_SequenceMatcher)
  from get_opcodes_none[OF this] show ?thesis by simp
qed

lemma get_opcodes_empty_a:
  "get_opcodes (SequenceMatcher isjunk [] b) = (if b = [] then [] else [(Insert, 0, 0, 0, length b)])"
proof -
  let ?sm = "SequenceMatcher isjunk [] b"
  have "find_longest_match ?sm 0 0 0 (length b) = (0, 0, 0)"
    by (rule find_longest_match_empty_a)
  then have "mb_loop ?sm [(0, length (sm_a ?sm), 0, length (sm_b ?sm))] [] = []"
    unfolding sm_a_SequenceMatcher sm_b_SequenceMatcher by (simp add: mb_loop_no_match)
  then have "get_matching_blocks ?sm = [(0, length b, 0)]"
    using get_matching_blocks_none[of ?sm]
    by (simp add: sm_a_SequenceMatcher sm_b_SequenceMatcher)
  from get_opcodes_none[OF this] show ?thesis by simp
qed

lemma ndiff_empty_right: "ndiff a [] = Some (map (\<lambda>l. str ''- '' @ l) a)"
  unfolding ndiff_def Differ_compare_def Let_def get_opcodes_empty_b
  by (simp add: compare_step_def dump_all str_def)

lemma ndiff_empty_left: "ndiff [] b = Some (map (\<lambda>l. str ''+ '' @ l) b)"
  unfolding ndiff_def Differ_compare_def Let_def get_opcodes_empty_a
  by (simp add: compare_step_def dump_all str_def)

subsection \<open>The dictionary of positions\<close>

lemma positions_notin: "x \<notin> set b \<Longrightarrow> positions b x k = []"
  by (induction b arbitrary: k) auto

lemma set_positions:
  "set (positions b x k) = {j. k \<le> j \<and> j < k + length b \<and> b ! (j - k) = x}"
proof (induction b arbitrary: k)
  case Nil show ?case by simp
next
  case (Cons y ys)
  have "{j. k \<le> j \<and> j < k + length (y # ys) \<and> (y # ys) ! (j - k) = x} =
        (if y = x then {k} else {}) \<union> {j. Suc k \<le> j \<and> j < Suc k + length ys \<and> ys ! (j - Suc k) = x}"
    (is "?A = ?B")
  proof (rule set_eqI)
    fix j
    show "j \<in> ?A \<longleftrightarrow> j \<in> ?B"
    proof (cases "j = k")
      case True then show ?thesis by auto
    next
      case False
      then have "k \<le> j \<Longrightarrow> (y # ys) ! (j - k) = ys ! (j - Suc k)"
        by (simp add: nth_Cons')
      with False show ?thesis by (auto split: if_splits)
    qed
  qed
  with Cons show ?case by (simp split: if_splits)
qed

lemma sorted_positions: "sorted_wrt (<) (positions b x k)"
proof (induction b arbitrary: k)
  case Nil show ?case by simp
next
  case (Cons y ys)
  have "\<forall>j \<in> set (positions ys x (Suc k)). k < j" by (auto simp: set_positions)
  with Cons show ?case by (simp add: sorted_wrt_append)
qed

lemma foldl_b2j_append:
  "foldl b2j_append m (enumerate k b) x =
     (if x \<in> set b then Some ((case m x of None \<Rightarrow> [] | Some l \<Rightarrow> l) @ positions b x k) else m x)"
proof (induction b arbitrary: m k)
  case Nil show ?case by simp
next
  case (Cons y ys)
  have "foldl b2j_append m (enumerate k (y # ys)) x =
        foldl b2j_append (b2j_append m (k, y)) (enumerate (Suc k) ys) x"
    by simp
  also have "\<dots> = (if x \<in> set ys
       then Some ((case b2j_append m (k, y) x of None \<Rightarrow> [] | Some l \<Rightarrow> l) @ positions ys x (Suc k))
       else b2j_append m (k, y) x)"
    by (rule Cons.IH)
  also have "\<dots> = (if x \<in> set (y # ys)
       then Some ((case m x of None \<Rightarrow> [] | Some l \<Rightarrow> l) @ positions (y # ys) x k) else m x)"
    by (simp add: b2j_append_def positions_notin)
  finally show ?case .
qed

lemma chain_b_b2j_ok:
  assumes "chain_b isjunk b = (b2j, junk, popular)"
  shows "b2j_ok b2j b"
  unfolding b2j_ok_def
proof (intro allI impI)
  fix x js assume s: "b2j x = Some js"
  have "b2j x = None \<or> b2j x = foldl b2j_append Map.empty (enumerate 0 b) x"
    using assms by (auto simp: chain_b_def Let_def)
  with s have "foldl b2j_append Map.empty (enumerate 0 b) x = Some js" by auto
  then show "js = positions b x 0"
    by (simp add: foldl_b2j_append split: if_splits)
qed

lemma SequenceMatcher_b2j_ok: "b2j_ok (sm_b2j (SequenceMatcher isjunk a b)) b"
proof -
  obtain b2j junk popular where c: "chain_b isjunk b = (b2j, junk, popular)"
    by (metis prod_cases3)
  from chain_b_b2j_ok[OF c] show ?thesis by (simp add: SequenceMatcher_def c)
qed

lemma SequenceMatcher_bjunk_None: "sm_bjunk (SequenceMatcher None a b) = {}"
  by (simp add: SequenceMatcher_def chain_b_def Let_def)

subsection \<open>A sequence compared with itself\<close>

text \<open>
  Comparing \<open>L\<close> with \<open>L\<close>, the loop of \<open>find_longest_match\<close> only ever records a best
  match on the diagonal (\<open>bestj = besti\<close>): a match off the diagonal is never longer than
  the run on the diagonal seen before it (\<open>same_inner\<close>, \<open>same_rows\<close>). The extension
  loops then grow the match to the whole of \<open>L\<close>, popular elements included.
\<close>

lemma run_len_np:
  "b2j (L ! j) \<noteq> None \<Longrightarrow> run_len b2j L j = (if j = 0 then 1 else run_len b2j L (j - 1) + 1)"
  by (cases j) simp_all

lemma run_len_p: "b2j (L ! j) = None \<Longrightarrow> run_len b2j L j = 0"
  by (cases j) simp_all

lemma flm_inner_step:
  assumes "blo \<le> j" "j < bhi"
  shows "flm_inner j2len i blo bhi (j # js) (new, bi, bj, bs) =
     flm_inner j2len i blo bhi js
       (if prev_len j2len j + 1 > bs
        then (new(j \<mapsto> prev_len j2len j + 1), i + 1 - (prev_len j2len j + 1),
              j + 1 - (prev_len j2len j + 1), prev_len j2len j + 1)
        else (new(j \<mapsto> prev_len j2len j + 1), bi, bj, bs))"
  using assms by (simp add: Let_def del: One_nat_def)

lemma same_inner:
  fixes L :: "'a list"
  assumes np: "b2j (L ! i) \<noteq> None"
    and old: "\<forall>j v. j2len j = Some v \<longrightarrow> 0 < i \<and> v \<le> run_len b2j L j \<and> v \<le> run_len b2j L (i - 1)"
    and diag: "0 < i \<longrightarrow> j2len (i - 1) =
                 (if b2j (L ! (i - 1)) = None then None else Some (run_len b2j L (i - 1)))"
  shows "sorted_wrt (<) js \<Longrightarrow> \<forall>j \<in> set js. j < n \<and> L ! j = L ! i \<Longrightarrow>
         bj = bi \<Longrightarrow> \<forall>m<i. run_len b2j L m \<le> bs \<Longrightarrow>
         i \<in> set js \<or> (run_len b2j L i \<le> bs \<and> new i = Some (run_len b2j L i)) \<Longrightarrow>
         \<forall>j v. new j = Some v \<longrightarrow> v \<le> run_len b2j L j \<and> v \<le> run_len b2j L i \<Longrightarrow>
         flm_inner j2len i 0 n js (new, bi, bj, bs) = (new', bi', bj', bs') \<Longrightarrow>
         bj' = bi' \<and> (\<forall>m<i. run_len b2j L m \<le> bs') \<and> run_len b2j L i \<le> bs' \<and>
         new' i = Some (run_len b2j L i) \<and>
         (\<forall>j v. new' j = Some v \<longrightarrow> v \<le> run_len b2j L j \<and> v \<le> run_len b2j L i)"
proof (induction js arbitrary: new bi bj bs)
  case Nil
  then show ?case by simp
next
  case (Cons j js)
  let ?D = "run_len b2j L"
  define k where "k = prev_len j2len j + 1"
  have jn: "j < n" and same: "L ! j = L ! i" using Cons.prems(2) by simp_all
  have npj: "b2j (L ! j) \<noteq> None" using np same by simp
  have Di: "?D i = (if i = 0 then 1 else ?D (i - 1) + 1)" using np by (rule run_len_np)
  have Dj: "?D j = (if j = 0 then 1 else ?D (j - 1) + 1)" using npj by (rule run_len_np)
  have pj: "prev_len j2len j \<le> (if j = 0 then 0 else ?D (j - 1))"
    using old by (auto simp: prev_len_def split: option.splits)
  have pi: "prev_len j2len j \<le> (if i = 0 then 0 else ?D (i - 1))"
    using old by (auto simp: prev_len_def split: option.splits)
  have kj: "k \<le> ?D j" using pj Dj by (auto simp: k_def split: if_splits)
  have ki: "k \<le> ?D i" using pi Di by (auto simp: k_def split: if_splits)
  have kd: "k = ?D i" if "j = i"
  proof (cases "i = 0")
    case True
    with that np show ?thesis by (auto simp: k_def prev_len_def)
  next
    case False
    then have "prev_len j2len i = ?D (i - 1)"
      using diag by (auto simp: prev_len_def run_len_p)
    with that False show ?thesis by (simp add: k_def Di)
  qed
  have later: "\<forall>j' \<in> set js. j < j'" using Cons.prems(1) by simp
  have nobig: "k \<le> bs" if "j \<noteq> i"
  proof (cases "j < i")
    case True
    with Cons.prems(4) have "?D j \<le> bs" by simp
    with kj show ?thesis by simp
  next
    case False
    with that have "i < j" by simp
    with later have "i \<notin> set (j # js)" by auto
    with Cons.prems(5) have "?D i \<le> bs" by simp
    with ki show ?thesis by simp
  qed
  define st' where "st' = (if k > bs then (new(j \<mapsto> k), i + 1 - k, j + 1 - k, k)
                           else (new(j \<mapsto> k), bi, bj, bs))"
  obtain new2 bi2 bj2 bs2 where st2: "st' = (new2, bi2, bj2, bs2)" by (metis prod_cases4)
  have step: "flm_inner j2len i 0 n (j # js) (new, bi, bj, bs) = flm_inner j2len i 0 n js st'"
    unfolding st'_def k_def by (rule flm_inner_step) (use jn in simp_all)
  have new2: "new2 = new(j \<mapsto> k)" using st2 by (auto simp: st'_def split: if_splits)
  have bs2: "bs \<le> bs2" "k \<le> bs2" using st2 by (auto simp: st'_def split: if_splits)
  have a1: "bj2 = bi2"
  proof (cases "k > bs")
    case True
    with nobig have "j = i" by (cases "j = i") auto
    with True st2 show ?thesis by (simp add: st'_def)
  next
    case False
    with st2 Cons.prems(3) show ?thesis by (simp add: st'_def)
  qed
  have a2: "\<forall>m<i. ?D m \<le> bs2" using Cons.prems(4) bs2(1) by (meson le_trans)
  have a3: "i \<in> set js \<or> (?D i \<le> bs2 \<and> new2 i = Some (?D i))"
  proof (cases "j = i")
    case True
    with kd bs2(2) new2 show ?thesis by simp
  next
    case False
    with Cons.prems(5) bs2(1) new2 show ?thesis by auto
  qed
  have a4: "\<forall>j' v. new2 j' = Some v \<longrightarrow> v \<le> ?D j' \<and> v \<le> ?D i"
    using Cons.prems(6) kj ki new2 by auto
  have res: "flm_inner j2len i 0 n js (new2, bi2, bj2, bs2) = (new', bi', bj', bs')"
    using Cons.prems(7) step st2 by simp
  have sjs: "sorted_wrt (<) js" "\<forall>j \<in> set js. j < n \<and> L ! j = L ! i"
    using Cons.prems(1,2) by simp_all
  from Cons.IH[OF sjs a1 a2 a3 a4 res] show ?case .
qed

lemma same_rows:
  fixes L :: "'a list"
  assumes ok: "b2j_ok b2j L"
  shows "i \<le> length L \<Longrightarrow>
         same_inv b2j L i (fold (flm_outer L b2j 0 (length L)) [0..<i] (Map.empty, 0, 0, 0))"
proof (induction i)
  case 0
  show ?case by (simp add: same_inv_def)
next
  case (Suc i)
  let ?D = "run_len b2j L"
  define st where "st = fold (flm_outer L b2j 0 (length L)) [0..<i] (Map.empty, 0, 0, 0)"
  obtain j2len bi bj bs where st: "st = (j2len, bi, bj, bs)" by (metis prod_cases4)
  from Suc have inv: "same_inv b2j L i (j2len, bi, bj, bs)" by (simp add: st_def[symmetric] st)
  have il: "i < length L" using Suc.prems by simp
  have unfold: "fold (flm_outer L b2j 0 (length L)) [0..<Suc i] (Map.empty, 0, 0, 0) =
                flm_outer L b2j 0 (length L) i (j2len, bi, bj, bs)"
    by (simp add: st_def[symmetric] st)
  show ?case
  proof (cases "b2j (L ! i)")
    case None
    then have "flm_outer L b2j 0 (length L) i (j2len, bi, bj, bs) = (Map.empty, bi, bj, bs)"
      by (simp add: flm_outer_def)
    moreover have "same_inv b2j L (Suc i) (Map.empty, bi, bj, bs)"
      using inv None by (auto simp: same_inv_def run_len_p less_Suc_eq)
    ultimately show ?thesis unfolding unfold by simp
  next
    case (Some js)
    with ok have js: "js = positions L (L ! i) 0" by (simp add: b2j_ok_def)
    have sorted: "sorted_wrt (<) js" unfolding js by (rule sorted_positions)
    have mem: "\<forall>j \<in> set js. j < length L \<and> L ! j = L ! i"
      unfolding js by (simp add: set_positions)
    have imem: "i \<in> set js" unfolding js using il by (simp add: set_positions)
    obtain new' bi' bj' bs' where
      res: "flm_inner j2len i 0 (length L) js (Map.empty, bi, bj, bs) = (new', bi', bj', bs')"
      by (metis prod_cases4)
    have np: "b2j (L ! i) \<noteq> None" using Some by simp
    have old: "\<forall>j v. j2len j = Some v \<longrightarrow> 0 < i \<and> v \<le> ?D j \<and> v \<le> ?D (i - 1)"
      using inv by (simp add: same_inv_def)
    have diag: "0 < i \<longrightarrow> j2len (i - 1) =
                 (if b2j (L ! (i - 1)) = None then None else Some (?D (i - 1)))"
      using inv by (simp add: same_inv_def)
    have b1: "bj = bi" and b2: "\<forall>m<i. ?D m \<le> bs" using inv by (simp_all add: same_inv_def)
    have b3: "i \<in> set js \<or> (?D i \<le> bs \<and> Map.empty i = Some (?D i))" using imem by simp
    have b4: "\<forall>j v. (Map.empty :: nat \<rightharpoonup> nat) j = Some v \<longrightarrow> v \<le> ?D j \<and> v \<le> ?D i" by simp
    from same_inner[OF np old diag sorted mem b1 b2 b3 b4 res]
    have "same_inv b2j L (Suc i) (new', bi', bj', bs')"
      using np by (auto simp: same_inv_def less_Suc_eq)
    moreover have "flm_outer L b2j 0 (length L) i (j2len, bi, bj, bs) = (new', bi', bj', bs')"
      using res Some by (simp add: flm_outer_def)
    ultimately show ?thesis unfolding unfold by simp
  qed
qed

lemma extend_down_diag:
  "\<forall>x. ok x \<Longrightarrow> extend_down L L ok 0 0 (i, i, s) = (0, 0, s + i)"
proof (induction i arbitrary: s)
  case 0
  show ?case by (subst extend_down.simps) simp
next
  case (Suc i)
  have "extend_down L L ok 0 0 (Suc i, Suc i, s) = extend_down L L ok 0 0 (i, i, s + 1)"
    using Suc.prems by (subst extend_down.simps) simp
  with Suc.IH[OF Suc.prems, of "s + 1"] show ?case by simp
qed

lemma extend_up_diag:
  "\<forall>x. ok x \<Longrightarrow> s \<le> n \<Longrightarrow> extend_up L L ok n n (0, 0, s) = (0, 0, n)"
proof (induction "n - s" arbitrary: s)
  case 0
  then show ?case by (subst extend_up.simps) simp
next
  case (Suc d)
  then have "extend_up L L ok n n (0, 0, s) = extend_up L L ok n n (0, 0, s + 1)"
    by (subst extend_up.simps) simp
  moreover have "extend_up L L ok n n (0, 0, s + 1) = (0, 0, n)"
    using Suc by (intro Suc.hyps(1)) simp_all
  ultimately show ?case by simp
qed

lemma extend_down_at_low: "extend_down a b ok alo blo (alo, bj, s) = (alo, bj, s)"
  by (subst extend_down.simps) simp

lemma extend_up_at_high: "ahi \<le> bi + s \<Longrightarrow> extend_up a b ok ahi bhi (bi, bj, s) = (bi, bj, s)"
  by (subst extend_up.simps) simp

lemma find_longest_match_same:
  "find_longest_match (SequenceMatcher None L L) 0 (length L) 0 (length L) = (0, 0, length L)"
proof -
  let ?sm = "SequenceMatcher None L L"
  define b2j where "b2j = sm_b2j ?sm"
  define st where "st = fold (flm_outer L b2j 0 (length L)) [0..<length L] (Map.empty, 0, 0, 0)"
  obtain j2len bi bj bs where st: "st = (j2len, bi, bj, bs)" by (metis prod_cases4)
  have ok: "b2j_ok b2j L" unfolding b2j_def by (rule SequenceMatcher_b2j_ok)
  have "same_inv b2j L (length L) st" unfolding st_def by (rule same_rows[OF ok]) simp
  then have d: "bj = bi" by (simp add: st same_inv_def)
  have "flm_inv 0 0 (length L) st"
    using flm_fold_inv[of 0 0 "length L" L b2j "length L"] by (simp add: st_def)
  then have le: "bi + bs \<le> length L" by (simp add: st flm_inv_def)
  have junk: "(\<lambda>x. x \<in> sm_bjunk ?sm) = (\<lambda>x. False)"
    by (simp add: SequenceMatcher_bjunk_None)
  have e1: "extend_down L L (\<lambda>x. \<not> False) 0 0 (bi, bi, bs) = (0, 0, bs + bi)"
    by (rule extend_down_diag) simp
  have e2: "extend_up L L (\<lambda>x. \<not> False) (length L) (length L) (0, 0, bs + bi) = (0, 0, length L)"
    by (rule extend_up_diag) (use le in simp_all)
  have e3: "extend_down L L (\<lambda>x. False) 0 0 (0, 0, length L) = (0, 0, length L)"
    by (rule extend_down_at_low)
  have e4: "extend_up L L (\<lambda>x. False) (length L) (length L) (0, 0, length L) = (0, 0, length L)"
    by (rule extend_up_at_high) simp
  show ?thesis
    unfolding find_longest_match_def Let_def sm_a_SequenceMatcher sm_b_SequenceMatcher junk
      b2j_def[symmetric] st_def[symmetric] st prod.case d e1 e2 e3 e4 ..
qed

lemma opcode_step_equal:
  "opcode_step (0, 0, []) (0, 0, Suc m) = (Suc m, Suc m, [(Equal, 0, Suc m, 0, Suc m)])"
  unfolding opcode_step_def prod.case Let_def by simp

lemma get_opcodes_same:
  "get_opcodes (SequenceMatcher None L L) =
     (if L = [] then [] else [(Equal, 0, length L, 0, length L)])"
proof (cases L)
  case Nil
  show ?thesis unfolding Nil by (simp add: get_opcodes_empty_a)
next
  case (Cons x xs)
  let ?sm = "SequenceMatcher None L L"
  define n where "n = length L"
  have n: "n = Suc (length xs)" by (simp add: n_def Cons)
  have flm: "find_longest_match ?sm 0 n 0 n = (0, 0, n)"
    unfolding n_def by (rule find_longest_match_same)
  have n0: "n \<noteq> 0" using n by simp
  have mb: "mb_loop ?sm [(0, n, 0, n)] [] = [(0, 0, n)]"
    by (subst mb_loop.simps) (simp add: flm n0 mb_loop.simps(1))
  have gmb: "get_matching_blocks ?sm = [(0, 0, n), (n, n, 0)]"
    unfolding get_matching_blocks_def Let_def sm_a_SequenceMatcher sm_b_SequenceMatcher
      n_def[symmetric] mb
    by (simp add: collapse_step_def n0)
  have "foldl opcode_step (0, 0, []) [(0, 0, n), (n, n, 0)] = (n, n, [(Equal, 0, n, 0, n)])"
    unfolding n by (simp add: opcode_step_equal opcode_step_sentinel)
  then show ?thesis
    unfolding get_opcodes_def gmb using n by (simp add: Cons)
qed

lemma ndiff_same: "ndiff L L = Some (map (\<lambda>l. str ''  '' @ l) L)"
  unfolding ndiff_def Differ_compare_def Let_def get_opcodes_same
  by (simp add: compare_step_def dump_all str_def)

subsection \<open>The assertion of the plain replace never fails\<close>

lemma fancy_inner_best:
  assumes "fancy_inner charjunk a b j i st = st'" "fst (snd st) = None \<longrightarrow> fst st = 74 / 100"
  shows "fst (snd st') = None \<longrightarrow> fst st' = 74 / 100"
  using assms by (cases st) (auto simp: fancy_inner_def Let_def split: if_splits)

lemma fancy_search_best:
  assumes "fancy_search charjunk a alo ahi b blo bhi = (r, best, eq)"
  shows "best = None \<longrightarrow> r = 74 / 100"
proof -
  define P where "P = (\<lambda>st :: rat \<times> (nat \<times> nat) option \<times> (nat \<times> nat) option.
      fst (snd st) = None \<longrightarrow> fst st = 74 / 100)"
  have inner: "P (fold (fancy_inner charjunk a b j) is st)" if "P st" for j "is" st
    using that
  proof (induction "is" arbitrary: st)
    case Nil then show ?case by simp
  next
    case (Cons i "is")
    have "P (fancy_inner charjunk a b j i st)"
      using fancy_inner_best[OF refl, of st charjunk a b j i] Cons.prems by (simp add: P_def)
    then show ?case using Cons.IH by simp
  qed
  have outer: "P (fold (\<lambda>j. fold (fancy_inner charjunk a b j) [alo..<ahi]) js st)" if "P st" for js st
    using that by (induction js arbitrary: st) (simp_all add: inner)
  have "P (74 / 100, None, None)" by (simp add: P_def)
  from outer[OF this, of "[blo..<bhi]"] assms show ?thesis
    by (simp add: fancy_search_def P_def)
qed

lemma fancy_replace_unfold:
  assumes "fancy_search charjunk a alo ahi b blo bhi = (r, best, eq)"
  shows "fancy_replace charjunk a alo ahi b blo bhi =
     (if r < 75 / 100 \<and> eq = None then plain_replace a alo ahi b blo bhi
      else case (if r < 75 / 100 then eq else best) of
             None \<Rightarrow> None
           | Some (bi, bj) \<Rightarrow>
               (case fancy_helper charjunk a alo bi b blo bj of
                  None \<Rightarrow> None
                | Some front \<Rightarrow>
                    (case fancy_helper charjunk a (bi + 1) ahi b (bj + 1) bhi of
                       None \<Rightarrow> None
                     | Some rear \<Rightarrow>
                         Some (front @
                               (if r < 75 / 100 then [str ''  '' @ a ! bi]
                                else intraline charjunk (a ! bi) (b ! bj)) @
                               rear))))"
proof (cases "r < 75 / 100")
  case True
  then show ?thesis
    by (subst fancy_replace.simps)
       (auto simp add: assms simp del: One_nat_def split: option.splits)
next
  case False
  then show ?thesis
    by (subst fancy_replace.simps)
       (auto simp add: assms simp del: One_nat_def split: option.splits)
qed

lemma fancy_total:
  "alo < ahi \<and> blo < bhi \<longrightarrow> fancy_replace charjunk a alo ahi b blo bhi \<noteq> None"
  "fancy_helper charjunk a alo ahi b blo bhi \<noteq> None"
proof (induction charjunk a alo ahi b blo bhi and charjunk a alo ahi b blo bhi
       rule: fancy_replace_fancy_helper.induct)
  case (1 charjunk a alo ahi b blo bhi)
  show ?case
  proof (intro impI)
    assume ne: "alo < ahi \<and> blo < bhi"
    obtain r best eq where s: "fancy_search charjunk a alo ahi b blo bhi = (r, best, eq)"
      by (metis prod_cases3)
    show "fancy_replace charjunk a alo ahi b blo bhi \<noteq> None"
    proof (cases "r < 75 / 100 \<and> eq = None")
      case True
      with ne s show ?thesis
        by (subst fancy_replace.simps) (simp add: plain_replace_def)
    next
      case False
      define synch where "synch = (if r < 75 / 100 then eq else best)"
      define eqi where "eqi = (if r < 75 / 100 then eq else None)"
      have pr: "(if r < 75 / 100 then (eq, eq) else (best, None)) = (synch, eqi)"
        by (simp add: synch_def eqi_def)
      have "synch \<noteq> None"
        using False fancy_search_best[OF s] by (auto simp: synch_def)
      then obtain bi bj where sy: "synch = Some (bi, bj)" by (cases synch) auto
      from "1.IH"(1)[OF s[symmetric] refl False pr[symmetric] sy refl]
      obtain front where f: "fancy_helper charjunk a alo bi b blo bj = Some front" by auto
      from "1.IH"(2)[OF s[symmetric] refl False pr[symmetric] sy refl f]
      obtain rear where bk: "fancy_helper charjunk a (bi + 1) ahi b (bj + 1) bhi = Some rear"
        by auto
      have sy': "(if r < 75 / 100 then eq else best) = Some (bi, bj)"
        using sy by (simp add: synch_def)
      show ?thesis
        unfolding fancy_replace_unfold[OF s] if_not_P[OF False] sy' option.case prod.case f bk
        by simp
    qed
  qed
next
  case (2 charjunk a alo ahi b blo bhi)
  then show ?case by (subst fancy_helper.simps) auto
qed

lemma opcode_step_replace:
  assumes "\<forall>oc \<in> set answer. case oc of (t, alo, ahi, blo, bhi) \<Rightarrow> t = Replace \<longrightarrow> alo < ahi \<and> blo < bhi"
    and "opcode_step (i, j, answer) blk = (i', j', answer')"
  shows "\<forall>oc \<in> set answer'. case oc of (t, alo, ahi, blo, bhi) \<Rightarrow> t = Replace \<longrightarrow> alo < ahi \<and> blo < bhi"
  using assms by (cases blk) (auto simp: opcode_step_def Let_def split: if_splits)

lemma get_opcodes_replace:
  "\<forall>oc \<in> set (get_opcodes sm). case oc of (t, alo, ahi, blo, bhi) \<Rightarrow> t = Replace \<longrightarrow> alo < ahi \<and> blo < bhi"
proof -
  have "\<forall>oc \<in> set (snd (snd (foldl opcode_step st blks))).
          case oc of (t, alo, ahi, blo, bhi) \<Rightarrow> t = Replace \<longrightarrow> alo < ahi \<and> blo < bhi"
    if "\<forall>oc \<in> set (snd (snd st)). case oc of (t, alo, ahi, blo, bhi) \<Rightarrow> t = Replace \<longrightarrow> alo < ahi \<and> blo < bhi"
    for st blks
    using that
  proof (induction blks arbitrary: st)
    case Nil then show ?case by simp
  next
    case (Cons blk blks)
    obtain i j answer where st: "st = (i, j, answer)" by (metis prod_cases3)
    obtain i' j' answer' where st': "opcode_step (i, j, answer) blk = (i', j', answer')"
      by (metis prod_cases3)
    from opcode_step_replace[OF _ st'] Cons.prems
    have "\<forall>oc \<in> set (snd (snd (opcode_step st blk))).
            case oc of (t, alo, ahi, blo, bhi) \<Rightarrow> t = Replace \<longrightarrow> alo < ahi \<and> blo < bhi"
      by (simp add: st st')
    from Cons.IH[OF this] show ?case by simp
  qed
  from this[of "(0, 0, [])" "get_matching_blocks sm"]
  have "\<forall>oc \<in> set (snd (snd (foldl opcode_step (0, 0, []) (get_matching_blocks sm)))).
          case oc of (t, alo, ahi, blo, bhi) \<Rightarrow> t = Replace \<longrightarrow> alo < ahi \<and> blo < bhi"
    by simp
  moreover have "get_opcodes sm = snd (snd (foldl opcode_step (0, 0, []) (get_matching_blocks sm)))"
    by (simp add: get_opcodes_def split: prod.splits)
  ultimately show ?thesis by simp
qed

lemma compare_fold_total:
  assumes "\<forall>oc \<in> set ops. case oc of (t, alo, ahi, blo, bhi) \<Rightarrow> t = Replace \<longrightarrow> alo < ahi \<and> blo < bhi"
  shows "foldl (compare_step charjunk a b) (Some out) ops \<noteq> None"
  using assms
proof (induction ops arbitrary: out)
  case Nil show ?case by simp
next
  case (Cons oc ops)
  obtain t alo ahi blo bhi where oc: "oc = (t, alo, ahi, blo, bhi)" by (metis prod_cases5)
  have "\<exists>out'. compare_step charjunk a b (Some out) oc = Some out'"
  proof (cases t)
    case Replace
    with Cons.prems oc have "alo < ahi \<and> blo < bhi" by simp
    with fancy_total(1)[of alo ahi blo bhi charjunk a b]
    obtain ls where "fancy_replace charjunk a alo ahi b blo bhi = Some ls" by auto
    with Replace show ?thesis by (simp add: compare_step_def oc)
  qed (simp_all add: compare_step_def oc)
  then obtain out' where "compare_step charjunk a b (Some out) oc = Some out'" ..
  with Cons.IH[of out'] Cons.prems show ?case by simp
qed

lemma ndiff_total: "\<exists>diff. ndiff a b = Some diff"
  using compare_fold_total[OF get_opcodes_replace, of "Some IS_CHARACTER_JUNK" a b "[]" "SequenceMatcher None a b"]
  by (auto simp: ndiff_def Differ_compare_def)

subsection \<open>The claims about the differ\<close>

lemma count_prefix_none:
  "\<forall>l \<in> set diff. \<not> startswith l p \<Longrightarrow> count_prefix p diff = 0"
  by (simp add: count_prefix_def filter_False)

lemma startswith_tag:
  "startswith (t # 32 # l) (str ''+ '') \<longleftrightarrow> t = 43"
  "startswith (t # 32 # l) (str ''- '') \<longleftrightarrow> t = 45"
  "startswith (t # 32 # l) (str ''? '') \<longleftrightarrow> t = 63"
  by (simp_all add: startswith_def str_def)

lemma str_tags: "str ''  '' = [32, 32]" "str ''- '' = [45, 32]" "str ''+ '' = [43, 32]"
  "str ''? '' = [63, 32]"
  by (simp_all add: str_def)

lemma edit_pattern_no_hint:
  "t \<noteq> 63 \<Longrightarrow> edit_pattern (map (\<lambda>l. [t, 32] @ l) ls) = map (\<lambda>l. [t, 32] @ l) ls"
  by (simp add: edit_pattern_def startswith_tag)

text \<open>
  Claim C5. The identity law: for every line sequence \<open>L\<close>, the diff of \<open>L\<close> with itself
  is the lines of \<open>L\<close> as Context records and nothing else, and the counts \<^verbatim>\<open>compare\<close>
  derives from it (added, removed, hints) are all zero.
\<close>

theorem diff_identity:
  "ndiff L L = Some (map (\<lambda>l. str ''  '' @ l) L) \<and>
   count_prefix (str ''+ '') (map (\<lambda>l. str ''  '' @ l) L) = 0 \<and>
   count_prefix (str ''- '') (map (\<lambda>l. str ''  '' @ l) L) = 0 \<and>
   count_prefix (str ''? '') (map (\<lambda>l. str ''  '' @ l) L) = 0"
proof -
  have "count_prefix (str p) (map (\<lambda>l. str ''  '' @ l) L) = 0"
    if "p = ''+ '' \<or> p = ''- '' \<or> p = ''? ''" for p
    using that by (intro count_prefix_none) (auto simp: str_tags(1) startswith_tag)
  then show ?thesis by (simp add: ndiff_same)
qed

text \<open>
  Claim C6. The empty inputs: the diff of two empty sequences is empty and all counts
  are zero; the diff of the empty sequence and \<^verbatim>\<open>["x"]\<close> is the one Insertion of \<^verbatim>\<open>x\<close>,
  with no hint; and the diff of any \<open>a\<close> and the empty sequence is the lines of \<open>a\<close> as
  Deletion records, so for a non-empty \<open>a\<close> it holds Deletion records only.
\<close>

theorem diff_empty_inputs:
  "ndiff [] [] = Some [] \<and>
   count_prefix (str ''+ '') [] = 0 \<and> count_prefix (str ''- '') [] = 0 \<and>
   count_prefix (str ''? '') [] = 0 \<and>
   ndiff [] [str ''x''] = Some [str ''+ x''] \<and> count_prefix (str ''? '') [str ''+ x''] = 0 \<and>
   ndiff a [] = Some (map (\<lambda>l. str ''- '' @ l) a) \<and>
   list_all (\<lambda>l. startswith l (str ''- '')) (map (\<lambda>l. str ''- '' @ l) a)"
proof -
  have "list_all (\<lambda>l. startswith l (str ''- '')) (map (\<lambda>l. str ''- '' @ l) a)"
    by (simp add: list_all_iff startswith_def)
  moreover have "ndiff [] [str ''x''] = Some [str ''+ x'']"
    by (simp add: ndiff_empty_left str_def)
  moreover have "count_prefix (str ''? '') [str ''+ x''] = 0"
    by (simp add: count_prefix_def startswith_def str_def)
  ultimately show ?thesis
    by (simp add: ndiff_empty_right ndiff_empty_left count_prefix_def)
qed

text \<open>
  Claim C7. For \<^verbatim>\<open>["a","b","c"]\<close> and \<^verbatim>\<open>["a","x","c"]\<close> the diff is Context \<^verbatim>\<open>a\<close>,
  Deletion \<^verbatim>\<open>b\<close>, Insertion \<^verbatim>\<open>x\<close>, Context \<^verbatim>\<open>c\<close>, with no Hint record: the lines
  \<^verbatim>\<open>b\<close> and \<^verbatim>\<open>x\<close> share no character, their ratio is 0, and the search of the replaced
  block ends with its initial \<open>0.74\<close> and no pair, below the cutoff \<open>0.75\<close>.
\<close>

theorem diff_unrelated_lines_no_hint:
  "ndiff [str ''a'', str ''b'', str ''c''] [str ''a'', str ''x'', str ''c''] =
     Some [str ''  a'', str ''- b'', str ''+ x'', str ''  c''] \<and>
   count_prefix (str ''? '') [str ''  a'', str ''- b'', str ''+ x'', str ''  c''] = 0 \<and>
   ratio (SequenceMatcher (Some IS_CHARACTER_JUNK) (str ''b'') (str ''x'')) = 0 \<and>
   fancy_search (Some IS_CHARACTER_JUNK) [str ''a'', str ''b'', str ''c''] 1 2
     [str ''a'', str ''x'', str ''c''] 1 2 = (74 / 100, None, None)"
proof -
  have "ndiff [str ''a'', str ''b'', str ''c''] [str ''a'', str ''x'', str ''c''] =
     Some [str ''  a'', str ''- b'', str ''+ x'', str ''  c'']"
    by (simp add: eval_simps)
  moreover have "count_prefix (str ''? '') [str ''  a'', str ''- b'', str ''+ x'', str ''  c''] = 0"
    by (simp add: count_prefix_def startswith_def str_def)
  moreover have "ratio (SequenceMatcher (Some IS_CHARACTER_JUNK) (str ''b'') (str ''x'')) = 0"
    by (simp add: eval_simps)
  moreover have "fancy_search (Some IS_CHARACTER_JUNK) [str ''a'', str ''b'', str ''c''] 1 2
     [str ''a'', str ''x'', str ''c''] 1 2 = (74 / 100, None, None)"
    by (simp add: eval_simps upt_conv_Cons)
  ultimately show ?thesis by simp
qed

text \<open>
  Claim C8, as stated, fails: the diff of \<^verbatim>\<open>["a","b"]\<close> and \<^verbatim>\<open>["b","a"]\<close> is
  Insertion \<^verbatim>\<open>b\<close>, Context \<^verbatim>\<open>a\<close>, Deletion \<^verbatim>\<open>b\<close>, and the diff the other way round is
  Insertion \<^verbatim>\<open>a\<close>, Context \<^verbatim>\<open>b\<close>, Deletion \<^verbatim>\<open>a\<close>: swapping Insertions and Deletions
  in the first gives neither the records nor the order of tags of the second.
\<close>

theorem diff_symmetry_counterexample:
  "\<not> mirrored [str ''a'', str ''b''] [str ''b'', str ''a'']"
proof -
  have "ndiff [str ''a'', str ''b''] [str ''b'', str ''a''] =
          Some [str ''+ b'', str ''  a'', str ''- b'']"
    by (simp add: eval_simps)
  moreover have "ndiff [str ''b'', str ''a''] [str ''a'', str ''b''] =
          Some [str ''+ a'', str ''  b'', str ''- a'']"
    by (simp add: eval_simps)
  ultimately show ?thesis
    by (simp add: mirrored_def swap_tag_def edit_pattern_def startswith_def str_def)
qed

text \<open>
  Claim C8, amended. The symmetry law holds where the block matching has no choice to
  make: when one of the two sequences is empty, and when the two are equal.
\<close>

theorem diff_symmetry_degenerate:
  "mirrored a [] \<and> mirrored [] b \<and> mirrored a a"
proof -
  have s1: "swap_tag ([45, 32] @ l) = [43, 32] @ l" for l
    by (simp add: swap_tag_def startswith_def str_def)
  have s2: "swap_tag ([43, 32] @ l) = [45, 32] @ l" for l
    by (simp add: swap_tag_def startswith_def str_def)
  have s3: "swap_tag ([32, 32] @ l) = [32, 32] @ l" for l
    by (simp add: swap_tag_def startswith_def str_def)
  have "mirrored a []"
    unfolding mirrored_def ndiff_empty_right ndiff_empty_left str_tags
    by (simp add: edit_pattern_no_hint s1 del: append.simps)
  moreover have "mirrored [] b"
    unfolding mirrored_def ndiff_empty_right ndiff_empty_left str_tags
    by (simp add: edit_pattern_no_hint s2 del: append.simps)
  moreover have "mirrored a a"
    unfolding mirrored_def ndiff_same str_tags
    by (simp add: edit_pattern_no_hint s3 del: append.simps)
  ultimately show ?thesis by simp
qed

section \<open>Properties of the window\<close>

text \<open>
  Claim C9. When the diff cannot be written, \<^verbatim>\<open>save_diff\<close> leaves the whole state of the
  window as it was, \<^verbatim>\<open>last_diff_lines\<close> included, and reports the error once, in one
  message box; saving again then writes the same diff.
\<close>

theorem save_diff_failure_keeps_diff:
  assumes "last_diff_lines st \<noteq> []" "chosen \<noteq> []"
    and "write_text w chosen (concat (last_diff_lines st)) = Some e"
    and "again \<noteq> []" "write_text w' again (concat (last_diff_lines st)) = None"
  shows "save_diff w st chosen =
           (st, [ShowError (str ''Save error'') (str ''Could not save diff'' @ [10, 10] @ e)]) \<and>
         save_diff w' (fst (save_diff w st chosen)) again =
           (st\<lparr>status := str ''Saved diff to '' @ again\<rparr>,
            [FileWritten again (concat (last_diff_lines st))])"
  using assms by (simp add: save_diff_def)

theorem save_diff_failure_keeps_diff_witness:
  "save_diff (demo_world (Some (str ''disk full''))) demo_gui (str ''out.diff'') =
     (demo_gui, [ShowError (str ''Save error'')
                   (str ''Could not save diff'' @ [10, 10] @ str ''disk full'')]) \<and>
   save_diff (demo_world None)
       (fst (save_diff (demo_world (Some (str ''disk full''))) demo_gui (str ''out.diff'')))
       (str ''out.diff'') =
     (demo_gui\<lparr>status := str ''Saved diff to '' @ str ''out.diff''\<rparr>,
      [FileWritten (str ''out.diff'') (concat (last_diff_lines demo_gui))])"
proof -
  have 1: "last_diff_lines demo_gui \<noteq> []" by (simp add: demo_gui_def)
  have 2: "str ''out.diff'' \<noteq> []" by (simp add: str_def)
  have 3: "write_text (demo_world (Some (str ''disk full''))) (str ''out.diff'')
             (concat (last_diff_lines demo_gui)) = Some (str ''disk full'')"
    by (simp add: demo_world_def)
  have 4: "write_text (demo_world None) (str ''out.diff'')
             (concat (last_diff_lines demo_gui)) = None"
    by (simp add: demo_world_def)
  from save_diff_failure_keeps_diff[OF 1 2 3 2 4] show ?thesis .
qed

text \<open>
  Claim C1 says that the options change only which lines compare equal, and that the
  text shown and saved is that of the original lines. The program states this intent
  in \<^verbatim>\<open>compare\<close> (\<^verbatim>\<open># Normalize (for diff only) if options are set\<close>), but it passes the
  normalized lines to \<^verbatim>\<open>ndiff\<close> and shows and stores what \<^verbatim>\<open>ndiff\<close> returns: with
  \<^verbatim>\<open>ignore_ws\<close> set and both files holding the line \<^verbatim>\<open>"a  b"\<close> (two blanks), the line
  shown and stored for saving is \<^verbatim>\<open>"  a b"\<close>, the normalized text.
\<close>

theorem compare_shows_normalized_text:
  "last_diff_lines (fst (compare (demo_world None) (demo_gui\<lparr>last_diff_lines := []\<rparr>))) =
     [str ''  a b'' @ [10]] \<and>
   text_widget (fst (compare (demo_world None) (demo_gui\<lparr>last_diff_lines := []\<rparr>))) ! 4 =
     (str ''  a b'' @ [10], Some Ctx) \<and>
   read_lines (demo_world None) (str ''A.txt'') = Inr [str ''a  b'']"
proof -
  have n: "normalize_lines fold_excerpt [str ''a  b''] False True = [str ''a b'']"
    by (simp add: normalize_lines_map normalize_line_def split_ws.simps str_def isspace_def)
  have s: "strip (str ''A.txt'') = str ''A.txt''" "strip (str ''B.txt'') = str ''B.txt''"
    by (simp_all add: strip_def rstrip_def str_def isspace_def)
  have ne: "str ''A.txt'' \<noteq> []" "str ''B.txt'' \<noteq> []" by (simp_all add: str_def)
  have d: "ndiff [str ''a b''] [str ''a b''] = Some [str ''  a b'']"
    by (simp add: ndiff_same str_def)
  have cnt: "count_prefix (str ''+ '') [str ''  a b''] = 0"
    "count_prefix (str ''- '') [str ''  a b''] = 0" "count_prefix (str ''? '') [str ''  a b''] = 0"
    by (simp_all add: count_prefix_def startswith_def str_def)
  have sw: "\<not> startswith (str ''  a b'' @ [10]) (str ''+'')"
    "\<not> startswith (str ''  a b'' @ [10]) (str ''-'')"
    "\<not> startswith (str ''  a b'' @ [10]) (str ''?'')"
    "\<not> startswith (str ''  a b'' @ [10]) (str ''---'')"
    "\<not> startswith (str ''  a b'' @ [10]) (str ''+++'')"
    "\<not> startswith (str ''  a b'' @ [10]) (str ''@@'')"
    "startswith (str ''  a b'' @ [10]) (str '' '')"
    by (simp_all add: startswith_def str_def)
  have c: "compare (demo_world None) (demo_gui\<lparr>last_diff_lines := []\<rparr>) =
    (\<lparr>file1 = str ''A.txt'', file2 = str ''B.txt'', ignore_case = False, ignore_ws = True,
      text_widget =
        map (\<lambda>h. (h, Some Meta)) (header (str ''A.txt'') (str ''B.txt'') False True 0 0 0) @
        [(str ''  a b'' @ [10], Some Ctx)],
      status = str ''Done. Added: '' @ str_nat 0 @ str '', Removed: '' @ str_nat 0 @
               str '', Hints: '' @ str_nat 0,
      last_diff_lines = [str ''  a b'' @ [10]]\<rparr>, [])"
    unfolding compare_def Let_def
    by (simp add: demo_gui_def demo_world_def s ne missing_def read_text_def n d cnt
        clear_def text_insert_def show_line_def insert_line_def sw header_def Let_def)
  show ?thesis unfolding c by (simp add: header_def demo_world_def)
qed

end
